theory Spec2Isabelle
  imports Complex_Main "HOL-Library.Multiset"
begin

section \<open>The world outside miles.py\<close>

text \<open>
  \<^verbatim>\<open>miles.py\<close> crawls one web page for links to files of the requested types and
  downloads them through a process pool. Everything it does beyond computing on strings
  goes through a library or the operating system: \<^verbatim>\<open>requests.get\<close>,
  \<^verbatim>\<open>re.findall\<close>, \<^verbatim>\<open>open\<close>, \<^verbatim>\<open>os.stat\<close>,
  \<^verbatim>\<open>time.time\<close> and \<^verbatim>\<open>concurrent.futures.ProcessPoolExecutor\<close>.
  The embedding keeps the functions of the source and takes these collaborators as the
  fields of one record, so that every theorem holds for every web, every regular
  expression engine, every clock and every scheduling of the pool.

  Python strings are lists of 8-bit characters here; a raised exception is a value of
  type \<open>error\<close> on the left of a sum.
\<close>

datatype error =
    SystemExit int
  | RequestException
  | KeyError string
  | ValueError
  | OSError
  | ZeroDivisionError

text \<open>
  What \<^verbatim>\<open>requests.get(url)\<close> does: it raises a
  \<^verbatim>\<open>RequestException\<close> (no connection, bad URL, timeout), or it returns a response
  with a status code, the decoded \<^verbatim>\<open>text\<close> and the raw \<^verbatim>\<open>content\<close>.
\<close>

datatype fetched = RequestFailed | Response nat string string

record env =
  requests_get :: "string \<Rightarrow> fetched"
  re_findall :: "string \<Rightarrow> string \<Rightarrow> string list"
  bracketed_host_ok :: "string \<Rightarrow> bool"
  nfkc_netloc_ok :: "string \<Rightarrow> bool"
  open_wb_ok :: "string \<Rightarrow> bool"
  time_start :: real
  time_end :: real
  finish :: "nat \<Rightarrow> nat"

text \<open>
  \<^item> \<open>re_findall E regex text\<close> is \<^verbatim>\<open>re.findall(regex, text)\<close>; every pattern of
    the program has one group, so the matches are strings, in textual order.
  \<^item> \<open>bracketed_host_ok E h\<close> says that \<^verbatim>\<open>_check_bracketed_host(h)\<close> of
    \<^verbatim>\<open>urllib.parse\<close> returns (it parses \<open>h\<close> with \<^verbatim>\<open>ipaddress\<close>), and
    \<open>nfkc_netloc_ok E n\<close> that the NFKC test of \<^verbatim>\<open>_checknetloc\<close> passes for a
    network location with a character beyond ASCII.
  \<^item> \<open>open_wb_ok E path\<close> says that opening \<open>path\<close> for writing and writing the body
    succeed; otherwise \<^verbatim>\<open>open\<close> or \<^verbatim>\<open>write\<close> raises an \<^verbatim>\<open>OSError\<close>.
  \<^item> \<open>time_start E\<close> and \<open>time_end E\<close> are the two readings of \<^verbatim>\<open>time.time()\<close>.
  \<^item> \<open>finish E i\<close> is the instant at which the pool performs the download submitted
    as number \<open>i\<close>: the workers complete the downloads in the order of these instants.
\<close>

section \<open>Strings\<close>

definition before :: "char \<Rightarrow> string \<Rightarrow> string" where
  "before c s = takeWhile (\<lambda>x. x \<noteq> c) s"

definition after :: "char \<Rightarrow> string \<Rightarrow> string" where
  "after c s = drop 1 (dropWhile (\<lambda>x. x \<noteq> c) s)"

text \<open>\<^verbatim>\<open>s.split(c)\<close>: the pieces between the occurrences of \<open>c\<close>, never an empty list.\<close>

fun split_on :: "char \<Rightarrow> string \<Rightarrow> string list" where
  "split_on c [] = [[]]"
| "split_on c (x # xs) =
     (if x = c then [] # split_on c xs
      else (x # hd (split_on c xs)) # tl (split_on c xs))"

text \<open>\<^verbatim>\<open>sep.join(parts)\<close>.\<close>

fun join_with :: "string \<Rightarrow> string list \<Rightarrow> string" where
  "join_with sep [] = []"
| "join_with sep [x] = x"
| "join_with sep (x # y # ys) = x @ sep @ join_with sep (y # ys)"

definition ascii_lowercase :: string where
  "ascii_lowercase = ''abcdefghijklmnopqrstuvwxyz''"

definition ascii_uppercase :: string where
  "ascii_uppercase = ''ABCDEFGHIJKLMNOPQRSTUVWXYZ''"

definition isascii :: "char \<Rightarrow> bool" where
  "isascii c = ((of_char c :: nat) < 128)"

definition isalpha :: "char \<Rightarrow> bool" where
  "isalpha c = (c \<in> set (ascii_lowercase @ ascii_uppercase))"

definition lower :: "char \<Rightarrow> char" where
  "lower c = (case map_of (zip ascii_uppercase ascii_lowercase) c of Some l \<Rightarrow> l | None \<Rightarrow> c)"

section \<open>urllib.parse, as far as urljoin reaches\<close>

text \<open>
  \<^verbatim>\<open>resolve_url\<close> is one call of \<^verbatim>\<open>urllib.parse.urljoin\<close>. The definitions below
  follow \<^verbatim>\<open>Lib/urllib/parse.py\<close> of CPython 3.11 function by function, for
  \<^verbatim>\<open>str\<close> arguments and \<^verbatim>\<open>allow_fragments=True\<close>.
\<close>

definition uses_relative :: "string list" where
  "uses_relative = ['''', ''ftp'', ''http'', ''gopher'', ''nntp'', ''imap'',
     ''wais'', ''file'', ''https'', ''shttp'', ''mms'',
     ''prospero'', ''rtsp'', ''rtsps'', ''rtspu'', ''sftp'',
     ''svn'', ''svn+ssh'', ''ws'', ''wss'']"

definition uses_netloc :: "string list" where
  "uses_netloc = ['''', ''ftp'', ''http'', ''gopher'', ''nntp'', ''telnet'',
     ''imap'', ''wais'', ''file'', ''mms'', ''https'', ''shttp'',
     ''snews'', ''prospero'', ''rtsp'', ''rtsps'', ''rtspu'', ''rsync'',
     ''svn'', ''svn+ssh'', ''sftp'', ''nfs'', ''git'', ''git+ssh'',
     ''ws'', ''wss'']"

definition uses_params :: "string list" where
  "uses_params = ['''', ''ftp'', ''hdl'', ''prospero'', ''http'', ''imap'',
     ''https'', ''shttp'', ''rtsp'', ''rtsps'', ''rtspu'', ''sip'',
     ''sips'', ''mms'', ''sftp'', ''tel'']"

definition scheme_chars :: string where
  "scheme_chars = ascii_lowercase @ ascii_uppercase @ ''0123456789'' @ ''+-.''"

text \<open>The characters \<^verbatim>\<open>_WHATWG_C0_CONTROL_OR_SPACE\<close>: code points 0 to 32.\<close>

definition c0_control_or_space :: "char \<Rightarrow> bool" where
  "c0_control_or_space c = ((of_char c :: nat) \<le> 32)"

text \<open>The characters \<^verbatim>\<open>_UNSAFE_URL_BYTES_TO_REMOVE\<close>: tab, carriage return, newline.\<close>

definition unsafe_url_byte :: "char \<Rightarrow> bool" where
  "unsafe_url_byte c = (c = CHR 0x09 \<or> c = CHR 0x0D \<or> c = CHR 0x0A)"

definition lstrip :: "(char \<Rightarrow> bool) \<Rightarrow> string \<Rightarrow> string" where
  "lstrip p s = dropWhile p s"

definition strip :: "(char \<Rightarrow> bool) \<Rightarrow> string \<Rightarrow> string" where
  "strip p s = rev (dropWhile p (rev (dropWhile p s)))"

text \<open>
  The scheme of \<^verbatim>\<open>urlsplit\<close>: the text before the first colon when that text is
  not empty, starts with an ASCII letter and consists of scheme characters; it is
  lowered and cut off. Otherwise the default scheme stands and the URL is whole.
\<close>

definition split_scheme :: "string \<Rightarrow> string \<Rightarrow> string \<times> string" where
  "split_scheme scheme url =
     (let pre = before CHR '':'' url in
      if CHR '':'' \<in> set url \<and> pre \<noteq> [] \<and> isascii (hd url) \<and> isalpha (hd url)
         \<and> list_all (\<lambda>c. c \<in> set scheme_chars) pre
      then (map lower pre, drop (length pre + 1) url)
      else (scheme, url))"

text \<open>\<^verbatim>\<open>_splitnetloc(url, 2)\<close>: the text after the two slashes up to the first of
  \<^verbatim>\<open>/?#\<close>, and the rest.\<close>

definition splitnetloc :: "string \<Rightarrow> string \<times> string" where
  "splitnetloc url =
     (takeWhile (\<lambda>c. c \<notin> set ''/?#'') (drop 2 url),
      dropWhile (\<lambda>c. c \<notin> set ''/?#'') (drop 2 url))"

text \<open>The two bracket tests of \<^verbatim>\<open>urlsplit\<close>; \<open>True\<close> when neither raises.\<close>

definition brackets_ok :: "env \<Rightarrow> string \<Rightarrow> bool" where
  "brackets_ok E netloc =
     (let l = CHR ''['' \<in> set netloc; r = CHR '']'' \<in> set netloc in
      if (l \<and> \<not> r) \<or> (r \<and> \<not> l) then False
      else if l \<and> r then bracketed_host_ok E (before CHR '']'' (after CHR ''['' netloc))
      else True)"

text \<open>\<^verbatim>\<open>_checknetloc\<close>; \<open>True\<close> when it returns.\<close>

definition checknetloc :: "env \<Rightarrow> string \<Rightarrow> bool" where
  "checknetloc E netloc =
     (if netloc = [] \<or> list_all isascii netloc then True else nfkc_netloc_ok E netloc)"

definition urlsplit ::
  "env \<Rightarrow> string \<Rightarrow> string \<Rightarrow> error + (string \<times> string \<times> string \<times> string \<times> string)" where
  "urlsplit E url0 scheme0 =
     (let url1 = filter (\<lambda>c. \<not> unsafe_url_byte c) (lstrip c0_control_or_space url0);
          scheme1 = filter (\<lambda>c. \<not> unsafe_url_byte c) (strip c0_control_or_space scheme0);
          (scheme, url2) = split_scheme scheme1 url1;
          (netloc, url3) = (if take 2 url2 = ''//'' then splitnetloc url2 else ([], url2))
      in if take 2 url2 = ''//'' \<and> \<not> brackets_ok E netloc then Inl ValueError
         else
          let (url4, fragment) =
                (if CHR ''#'' \<in> set url3 then (before CHR ''#'' url3, after CHR ''#'' url3)
                 else (url3, []));
              (url5, query) =
                (if CHR ''?'' \<in> set url4 then (before CHR ''?'' url4, after CHR ''?'' url4)
                 else (url4, []))
          in if checknetloc E netloc then Inr (scheme, netloc, url5, query, fragment)
             else Inl ValueError)"

text \<open>\<^verbatim>\<open>_splitparams\<close>, called only when the path holds a semicolon.\<close>

definition splitparams :: "string \<Rightarrow> string \<times> string" where
  "splitparams url =
     (if CHR ''/'' \<in> set url then
        (let last_seg = rev (before CHR ''/'' (rev url));
             head = take (length url - length last_seg) url
         in if CHR '';'' \<in> set last_seg
            then (head @ before CHR '';'' last_seg, after CHR '';'' last_seg)
            else (url, []))
      else (before CHR '';'' url, after CHR '';'' url))"

definition urlparse ::
  "env \<Rightarrow> string \<Rightarrow> string \<Rightarrow>
     error + (string \<times> string \<times> string \<times> string \<times> string \<times> string)" where
  "urlparse E url scheme0 =
     (case urlsplit E url scheme0 of
        Inl e \<Rightarrow> Inl e
      | Inr (scheme, netloc, url1, query, fragment) \<Rightarrow>
          if scheme \<in> set uses_params \<and> CHR '';'' \<in> set url1
          then (let (url2, params) = splitparams url1
                in Inr (scheme, netloc, url2, params, query, fragment))
          else Inr (scheme, netloc, url1, [], query, fragment))"

definition urlunsplit :: "string \<times> string \<times> string \<times> string \<times> string \<Rightarrow> string" where
  "urlunsplit c =
     (case c of (scheme, netloc, url0, query, fragment) \<Rightarrow>
        let url1 =
              (if netloc \<noteq> [] \<or> (scheme \<noteq> [] \<and> scheme \<in> set uses_netloc) \<or> take 2 url0 = ''//''
               then ''//'' @ netloc @ (if url0 \<noteq> [] \<and> take 1 url0 \<noteq> ''/'' then ''/'' @ url0 else url0)
               else url0);
            url2 = (if scheme \<noteq> [] then scheme @ '':'' @ url1 else url1);
            url3 = (if query \<noteq> [] then url2 @ ''?'' @ query else url2)
        in if fragment \<noteq> [] then url3 @ ''#'' @ fragment else url3)"

definition urlunparse ::
  "string \<times> string \<times> string \<times> string \<times> string \<times> string \<Rightarrow> string" where
  "urlunparse c =
     (case c of (scheme, netloc, url, params, query, fragment) \<Rightarrow>
        urlunsplit (scheme, netloc, (if params \<noteq> [] then url @ '';'' @ params else url),
                    query, fragment))"

text \<open>The loop of \<^verbatim>\<open>urljoin\<close> over the segments: \<^verbatim>\<open>..\<close> pops (and is ignored on an
  empty list), \<^verbatim>\<open>.\<close> is skipped, anything else is appended.\<close>

fun resolve_dots :: "string list \<Rightarrow> string list \<Rightarrow> string list" where
  "resolve_dots resolved_path [] = resolved_path"
| "resolve_dots resolved_path (seg # segs) =
     (if seg = ''..'' then resolve_dots (butlast resolved_path) segs
      else if seg = ''.'' then resolve_dots resolved_path segs
      else resolve_dots (resolved_path @ [seg]) segs)"

text \<open>\<^verbatim>\<open>segments[1:-1] = filter(None, segments[1:-1])\<close>.\<close>

definition drop_empty_middle :: "string list \<Rightarrow> string list" where
  "drop_empty_middle segments =
     (if length segments < 2 then segments
      else hd segments # filter (\<lambda>s. s \<noteq> []) (butlast (tl segments)) @ [last segments])"

definition merge_paths :: "string \<Rightarrow> string \<Rightarrow> string" where
  "merge_paths bpath path =
     (let parts = split_on CHR ''/'' bpath;
          base_parts = (if last parts \<noteq> [] then butlast parts else parts);
          segments =
            (if take 1 path = ''/'' then split_on CHR ''/'' path
             else drop_empty_middle (base_parts @ split_on CHR ''/'' path));
          resolved_path = resolve_dots [] segments;
          resolved_path' =
            (if last segments = ''.'' \<or> last segments = ''..'' then resolved_path @ [[]]
             else resolved_path);
          joined = join_with ''/'' resolved_path'
      in if joined = [] then ''/'' else joined)"

definition urljoin :: "env \<Rightarrow> string \<Rightarrow> string \<Rightarrow> error + string" where
  "urljoin E base url =
     (if base = [] then Inr url
      else if url = [] then Inr base
      else
        case urlparse E base [] of
          Inl e \<Rightarrow> Inl e
        | Inr (bscheme, bnetloc, bpath, bparams, bquery, bfragment) \<Rightarrow>
           (case urlparse E url bscheme of
              Inl e \<Rightarrow> Inl e
            | Inr (scheme, netloc, path, params, query, fragment) \<Rightarrow>
                if scheme \<noteq> bscheme \<or> scheme \<notin> set uses_relative then Inr url
                else if scheme \<in> set uses_netloc \<and> netloc \<noteq> []
                then Inr (urlunparse (scheme, netloc, path, params, query, fragment))
                else
                  let netloc' = (if scheme \<in> set uses_netloc then bnetloc else netloc) in
                  if path = [] \<and> params = []
                  then Inr (urlunparse (scheme, netloc', bpath, bparams,
                              (if query = [] then bquery else query), fragment))
                  else Inr (urlunparse (scheme, netloc', merge_paths bpath path,
                              params, query, fragment))))"

section \<open>miles.py\<close>

text \<open>
  The table \<^verbatim>\<open>FILE_REGEX\<close>. Every pattern ends in the same group,
  \<^verbatim>\<open>"?([^\" ]+.EXT)\<close>; the double quote is character 0x22 and the backslash 0x5C.
  The second pattern of \<^verbatim>\<open>mp3\<close> has no opening angle bracket in the source.
\<close>

definition url_group :: "string \<Rightarrow> string" where
  "url_group ext = [CHR 0x22] @ ''?([^'' @ [CHR 0x5C, CHR 0x22] @ '' ]+.'' @ ext @ '')''"

definition FILE_REGEX :: "string \<Rightarrow> string list option" where
  "FILE_REGEX = map_of
     [(''jpg'', [''<img.*src='' @ url_group ''jpg'', ''<a.*href='' @ url_group ''jpg'']),
      (''mp3'', [''<audio.*src='' @ url_group ''mp3'', ''a.*href='' @ url_group ''mp3'']),
      (''pdf'', [''<a.*href='' @ url_group ''pdf'']),
      (''png'', [''<img.*src='' @ url_group ''png'', ''<a.*href='' @ url_group ''png''])]"

definition resolve_url :: "env \<Rightarrow> string \<Rightarrow> string \<Rightarrow> error + string" where
  "resolve_url E base url = urljoin E base url"

subsection \<open>extract_urls\<close>

text \<open>
  \<^verbatim>\<open>extract_urls\<close> is a generator. Its run is the list of the values it yields,
  in order, and how it ends: \<open>None\<close> when it is exhausted, \<open>Some e\<close> when it raises
  \<open>e\<close> after the values yielded so far. One function for each of the three nested loops.
\<close>

type_synonym generated = "string list \<times> error option"

definition and_then :: "generated \<Rightarrow> generated \<Rightarrow> generated" where
  "and_then g h = (case snd g of Some e \<Rightarrow> g | None \<Rightarrow> (fst g @ fst h, snd h))"

fun yield_resolved :: "env \<Rightarrow> string \<Rightarrow> string list \<Rightarrow> generated" where
  "yield_resolved E url [] = ([], None)"
| "yield_resolved E url (relative_url # rest) =
     (case resolve_url E url relative_url of
        Inl e \<Rightarrow> ([], Some e)
      | Inr u \<Rightarrow> and_then ([u], None) (yield_resolved E url rest))"

fun scan_regexes :: "env \<Rightarrow> string \<Rightarrow> string \<Rightarrow> string list \<Rightarrow> generated" where
  "scan_regexes E url text [] = ([], None)"
| "scan_regexes E url text (regex # rest) =
     and_then (yield_resolved E url (re_findall E regex text)) (scan_regexes E url text rest)"

fun scan_file_types :: "env \<Rightarrow> string \<Rightarrow> string \<Rightarrow> string list \<Rightarrow> generated" where
  "scan_file_types E url text [] = ([], None)"
| "scan_file_types E url text (filetype # rest) =
     (case FILE_REGEX filetype of
        None \<Rightarrow> ([], Some (KeyError filetype))
      | Some regexes \<Rightarrow>
          and_then (scan_regexes E url text regexes) (scan_file_types E url text rest))"

text \<open>\<^verbatim>\<open>Response.ok\<close>, which \<^verbatim>\<open>not response\<close> and
  \<^verbatim>\<open>raise_for_status\<close> both test: the status is not in 400..599.\<close>

definition ok :: "nat \<Rightarrow> bool" where
  "ok status = (\<not> (400 \<le> status \<and> status < 600))"

definition extract_urls :: "env \<Rightarrow> string \<Rightarrow> string list \<Rightarrow> generated" where
  "extract_urls E url file_types =
     (case requests_get E url of
        RequestFailed \<Rightarrow> ([], Some RequestException)
      | Response status text content \<Rightarrow>
          if \<not> ok status then ([], Some (SystemExit 5))
          else scan_file_types E url text file_types)"

subsection \<open>download_url\<close>

text \<open>
  The destination store: a map from paths to the bytes of the file there.
  \<^verbatim>\<open>os.path.basename\<close> and \<^verbatim>\<open>os.path.join\<close> are those of
  \<^verbatim>\<open>posixpath\<close>.
\<close>

type_synonym files = "string \<Rightarrow> string option"

definition basename :: "string \<Rightarrow> string" where
  "basename p = rev (before CHR ''/'' (rev p))"

definition path_join :: "string \<Rightarrow> string \<Rightarrow> string" where
  "path_join a b =
     (if take 1 b = ''/'' then b
      else if a = [] \<or> last a = CHR ''/'' then a @ b
      else a @ ''/'' @ b)"

text \<open>
  The result is what the call returns or raises, and the store afterwards. The
  \<^verbatim>\<open>try\<close> block covers \<^verbatim>\<open>requests.get\<close> and
  \<^verbatim>\<open>raise_for_status\<close> only; \<^verbatim>\<open>open\<close> and \<^verbatim>\<open>write\<close> stand after
  it. Opening the empty path always fails. A write that fails leaves the store as it
  was (the source may leave an empty file behind). The progress line printed first is
  left out.
\<close>

definition download_url ::
  "env \<Rightarrow> string \<Rightarrow> string \<Rightarrow> files \<Rightarrow> (error + string option) \<times> files" where
  "download_url E url destination fs =
     (case requests_get E url of
        RequestFailed \<Rightarrow> (Inr None, fs)
      | Response status text content \<Rightarrow>
          if \<not> ok status then (Inr None, fs)
          else
            let name = basename url;
                local_path = path_join destination name
            in if local_path = [] \<or> \<not> open_wb_ok E local_path then (Inl OSError, fs)
               else (Inr (Some local_path), fs(local_path \<mapsto> content)))"

subsection \<open>crawl\<close>

text \<open>
  \<^verbatim>\<open>executor.map(download_url, urls, dsts)\<close> submits one download for each URL the
  generator yields, numbered in that order; the workers of the pool perform them, here one
  at a time in the order of their instants \<open>finish E i\<close> (submission order among equal
  instants); and the results come back in submission order. A download is one step: two
  workers writing the same file at the same moment are not modelled. How many workers
  there are does not show in the results, so \<open>cpus\<close> is not an argument here.
\<close>

fun run_pool ::
  "env \<Rightarrow> string \<Rightarrow> (nat \<times> string) list \<Rightarrow> files \<Rightarrow>
     (nat \<times> (error + string option)) list \<times> files" where
  "run_pool E destination [] fs = ([], fs)"
| "run_pool E destination ((i, url) # jobs) fs =
     (let (r, fs1) = download_url E url destination fs;
          (rs, fs2) = run_pool E destination jobs fs1
      in ((i, r) # rs, fs2))"

definition executor_map ::
  "env \<Rightarrow> string list \<Rightarrow> string \<Rightarrow> files \<Rightarrow> (error + string option) list \<times> files" where
  "executor_map E urls destination fs =
     (let jobs = sort_key (\<lambda>job. finish E (fst job)) (enumerate 0 urls);
          (finished, fs1) = run_pool E destination jobs fs
      in (map snd (sort_key fst finished), fs1))"

text \<open>
  \<^verbatim>\<open>[file for file in ... if file]\<close>: the results are read in submission order; a
  download that raised raises again here; \<^verbatim>\<open>None\<close> and the empty string are dropped.
\<close>

fun collect_files :: "(error + string option) list \<Rightarrow> error + string list" where
  "collect_files [] = Inr []"
| "collect_files (Inl e # rs) = Inl e"
| "collect_files (Inr file # rs) =
     (case collect_files rs of
        Inl e \<Rightarrow> Inl e
      | Inr files \<Rightarrow>
          (case file of
             None \<Rightarrow> Inr files
           | Some p \<Rightarrow> if p = [] then Inr files else Inr (p # files)))"

text \<open>\<^verbatim>\<open>sum(os.stat(file).st_size for file in files)\<close>, on the store as it is after the
  pool has shut down.\<close>

fun total_size :: "files \<Rightarrow> string list \<Rightarrow> error + nat" where
  "total_size fs [] = Inr 0"
| "total_size fs (file # rest) =
     (case fs file of
        None \<Rightarrow> Inl OSError
      | Some body \<Rightarrow>
          (case total_size fs rest of
             Inl e \<Rightarrow> Inl e
           | Inr n \<Rightarrow> Inr (length body + n)))"

text \<open>
  \<^verbatim>\<open>crawl\<close> returns nothing and prints four numbers; the record holds them before
  formatting, with Python's floats read as real numbers. The result of the model is the
  list of the downloads submitted to the pool and, when \<^verbatim>\<open>crawl\<close> returns, the
  report and the store; when it raises, the error. A pool of no workers is refused by
  \<^verbatim>\<open>ProcessPoolExecutor\<close> with a \<^verbatim>\<open>ValueError\<close>. When the generator raises,
  the downloads submitted so far are those it had yielded. When a download raises, the
  pool may cancel downloads that have not started, so the store is then left unsaid.
\<close>

record report =
  files_downloaded :: nat
  Mbytes_downloaded :: real
  time_total :: real
  bandwidth :: real

definition crawl ::
  "env \<Rightarrow> string \<Rightarrow> string list \<Rightarrow> string \<Rightarrow> int \<Rightarrow> files \<Rightarrow>
     string list \<times> (error + report \<times> files)" where
  "crawl E url file_types destination cpus fs =
     (if cpus \<le> 0 then ([], Inl ValueError)
      else
        case extract_urls E url file_types of
          (urls, Some e) \<Rightarrow> (urls, Inl e)
        | (urls, None) \<Rightarrow>
           (let (results, fs1) = executor_map E urls destination fs in
            case collect_files results of
              Inl e \<Rightarrow> (urls, Inl e)
            | Inr files \<Rightarrow>
               (case total_size fs1 files of
                  Inl e \<Rightarrow> (urls, Inl e)
                | Inr bytes \<Rightarrow>
                    let Mbytes = real bytes / (1024 * 1024);
                        elapsed = time_end E - time_start E
                    in if elapsed = 0 then (urls, Inl ZeroDivisionError)
                       else (urls, Inr (\<lparr>files_downloaded = length files,
                                            Mbytes_downloaded = Mbytes,
                                            time_total = elapsed,
                                            bandwidth = Mbytes / elapsed\<rparr>, fs1)))))"

section \<open>Notions the claims are stated with\<close>

text \<open>
  The matches in the order of the specification: category by category as the caller
  lists them, pattern by pattern within a category, match by match within a pattern,
  nothing removed. \<open>patterns_of\<close> reads the table; an unknown category has no pattern.
\<close>

definition patterns_of :: "string \<Rightarrow> string list" where
  "patterns_of filetype = (case FILE_REGEX filetype of None \<Rightarrow> [] | Some regexes \<Rightarrow> regexes)"

definition raw_matches :: "env \<Rightarrow> string \<Rightarrow> string list \<Rightarrow> string list" where
  "raw_matches E text file_types =
     concat (map (\<lambda>filetype. concat (map (\<lambda>regex. re_findall E regex text) (patterns_of filetype)))
       file_types)"

text \<open>
  About one download: whether the fetch gives a response with a good status, the body
  it gives, the path the file goes to, whether the file gets written, what the call
  returns (it does not depend on the store) and what it does to the store.
\<close>

definition fetch_succeeds :: "env \<Rightarrow> string \<Rightarrow> bool" where
  "fetch_succeeds E url =
     (case requests_get E url of RequestFailed \<Rightarrow> False | Response status text content \<Rightarrow> ok status)"

definition body :: "env \<Rightarrow> string \<Rightarrow> string" where
  "body E url =
     (case requests_get E url of RequestFailed \<Rightarrow> [] | Response status text content \<Rightarrow> content)"

definition byte_count :: "env \<Rightarrow> string \<Rightarrow> nat" where
  "byte_count E url = length (body E url)"

definition local_path_of :: "string \<Rightarrow> string \<Rightarrow> string" where
  "local_path_of destination url = path_join destination (basename url)"

definition writes :: "env \<Rightarrow> string \<Rightarrow> string \<Rightarrow> bool" where
  "writes E d url \<longleftrightarrow>
     fetch_succeeds E url \<and> local_path_of d url \<noteq> [] \<and> open_wb_ok E (local_path_of d url)"

definition outcome :: "env \<Rightarrow> string \<Rightarrow> string \<Rightarrow> error + string option" where
  "outcome E d url = fst (download_url E url d Map.empty)"

definition store :: "env \<Rightarrow> string \<Rightarrow> string \<Rightarrow> files \<Rightarrow> files" where
  "store E d url fs = snd (download_url E url d fs)"

text \<open>A download succeeds when \<^verbatim>\<open>download_url\<close> returns a path.\<close>

definition succeeds :: "env \<Rightarrow> string \<Rightarrow> string \<Rightarrow> bool" where
  "succeeds E destination url =
     (case fst (download_url E url destination Map.empty) of
        Inr (Some path) \<Rightarrow> True
      | _ \<Rightarrow> False)"

text \<open>\<^verbatim>\<open>os.stat(path).st_size\<close> for a file that is there.\<close>

definition st_size :: "files \<Rightarrow> string \<Rightarrow> nat" where
  "st_size fs path = (case fs path of None \<Rightarrow> 0 | Some b \<Rightarrow> length b)"

text \<open>The four numbers \<^verbatim>\<open>crawl\<close> prints for a file count and a byte total.\<close>

definition report_of :: "env \<Rightarrow> nat \<Rightarrow> nat \<Rightarrow> report" where
  "report_of E n bytes =
     \<lparr>files_downloaded = n,
      Mbytes_downloaded = real bytes / (1024 * 1024),
      time_total = time_end E - time_start E,
      bandwidth = real bytes / (1024 * 1024) / (time_end E - time_start E)\<rparr>"

text \<open>How a call ended: the error it raised, or the report it returned.\<close>

definition raised :: "error + 'a \<Rightarrow> error option" where
  "raised r = (case r of Inl e \<Rightarrow> Some e | Inr v \<Rightarrow> None)"

definition reported :: "error + report \<times> files \<Rightarrow> report option" where
  "reported r = (case r of Inl e \<Rightarrow> None | Inr v \<Rightarrow> Some (fst v))"

text \<open>
  The scheme and the authority of a URL, as \<^verbatim>\<open>urlparse\<close> reads them; and what
  \<^verbatim>\<open>urlsplit\<close> guarantees of every network location it returns.
\<close>

definition origin :: "env \<Rightarrow> string \<Rightarrow> error + string \<times> string" where
  "origin E url =
     (case urlparse E url [] of
        Inl e \<Rightarrow> Inl e
      | Inr (scheme, netloc, path, params, query, fragment) \<Rightarrow> Inr (scheme, netloc))"

definition netloc_ok :: "env \<Rightarrow> string \<Rightarrow> bool" where
  "netloc_ok E netloc \<longleftrightarrow>
     list_all (\<lambda>c. c \<notin> set ''/?#'' \<and> \<not> unsafe_url_byte c) netloc \<and>
     brackets_ok E netloc \<and> checknetloc E netloc"

text \<open>Two worlds with the same regular expression engine and the same \<^verbatim>\<open>urllib\<close>.\<close>

definition same_library :: "env \<Rightarrow> env \<Rightarrow> bool" where
  "same_library E E' \<longleftrightarrow>
     re_findall E' = re_findall E \<and> bracketed_host_ok E' = bracketed_host_ok E \<and>
     nfkc_netloc_ok E' = nfkc_netloc_ok E"

section \<open>Small sites for the examples\<close>

text \<open>
  Concrete worlds for the examples: a web given by a table of responses (any other
  address refuses the connection), the matches \<^verbatim>\<open>re.findall\<close> returns for the
  patterns of \<open>FILE_REGEX\<close> on the pages of that web (no match for any other pair), the
  paths that cannot be written, the two clock readings and the instants of the pool.
\<close>

definition table_env ::
  "(string \<times> fetched) list \<Rightarrow> ((string \<times> string) \<times> string list) list \<Rightarrow> string list \<Rightarrow>
     real \<Rightarrow> real \<Rightarrow> (nat \<Rightarrow> nat) \<Rightarrow> env" where
  "table_env web matches readonly t0 t1 instants =
     \<lparr>requests_get = (\<lambda>url. case map_of web url of None \<Rightarrow> RequestFailed | Some r \<Rightarrow> r),
      re_findall = (\<lambda>regex text. case map_of matches (regex, text) of None \<Rightarrow> [] | Some ms \<Rightarrow> ms),
      bracketed_host_ok = (\<lambda>h. True),
      nfkc_netloc_ok = (\<lambda>n. True),
      open_wb_ok = (\<lambda>path. path \<notin> set readonly),
      time_start = t0, time_end = t1, finish = instants\<rparr>"

text \<open>Downloads performed in submission order, and in the opposite order.\<close>

definition first_come :: "nat \<Rightarrow> nat" where
  "first_come i = i"

definition last_come :: "nat \<Rightarrow> nat" where
  "last_come i = 10 - i"

definition page_url :: string where
  "page_url = ''http://h.example/p/''"

text \<open>A page of three links to PDF files, one per line; the second file is gone.\<close>

definition pdf_page :: string where
  "pdf_page = ''<a href=one.pdf>'' @ [CHR 0x0A] @ ''<a href=two.pdf>'' @ [CHR 0x0A] @ ''<a href=three.pdf>''"

definition pdf_site :: "string list \<Rightarrow> real \<Rightarrow> real \<Rightarrow> (nat \<Rightarrow> nat) \<Rightarrow> env" where
  "pdf_site = table_env
     [(page_url, Response 200 pdf_page pdf_page),
      (''http://h.example/p/one.pdf'', Response 200 [] ''ONE''),
      (''http://h.example/p/two.pdf'', Response 404 ''gone'' ''gone''),
      (''http://h.example/p/three.pdf'', Response 200 [] ''THREE'')]
     [((''<a.*href='' @ url_group ''pdf'', pdf_page), [''one.pdf'', ''two.pdf'', ''three.pdf''])]"

text \<open>A page where one image is both linked and shown, and a link to a PDF file that
  the site does not serve.\<close>

definition gallery_page :: string where
  "gallery_page = ''<a href=x.jpg><img src=x.jpg></a>'' @ [CHR 0x0A] @ ''<a href=doc.pdf>''"

definition gallery_site :: "string list \<Rightarrow> real \<Rightarrow> real \<Rightarrow> (nat \<Rightarrow> nat) \<Rightarrow> env" where
  "gallery_site = table_env
     [(page_url, Response 200 gallery_page gallery_page),
      (''http://h.example/p/x.jpg'', Response 200 [] ''JPEGDATA'')]
     [((''<img.*src='' @ url_group ''jpg'', gallery_page), [''x.jpg'']),
      ((''<a.*href='' @ url_group ''jpg'', gallery_page), [''x.jpg'']),
      ((''<a.*href='' @ url_group ''pdf'', gallery_page), [''doc.pdf''])]"

text \<open>A page with two images of the same name in two directories, of one and two bytes.\<close>

definition clash_page :: string where
  "clash_page = ''<img src=a/x.jpg>'' @ [CHR 0x0A] @ ''<img src=b/x.jpg>''"

definition clash_site :: "string list \<Rightarrow> real \<Rightarrow> real \<Rightarrow> (nat \<Rightarrow> nat) \<Rightarrow> env" where
  "clash_site = table_env
     [(page_url, Response 200 clash_page clash_page),
      (''http://h.example/p/a/x.jpg'', Response 200 [] ''A''),
      (''http://h.example/p/b/x.jpg'', Response 200 [] ''BB'')]
     [((''<img.*src='' @ url_group ''jpg'', clash_page), [''a/x.jpg'', ''b/x.jpg''])]"

text \<open>The first PDF file again, with other bytes.\<close>

definition mirror_site :: env where
  "mirror_site =
     table_env [(''http://h.example/p/one.pdf'', Response 200 [] ''UNO'')] [] [] 0 1 first_come"

text \<open>A site that is down, and one whose page is missing.\<close>

definition down_site :: env where
  "down_site = table_env [] [] [] 0 1 first_come"

definition missing_site :: env where
  "missing_site = table_env [(page_url, Response 404 ''Not Found'' ''Not Found'')] [] [] 0 1 first_come"

section \<open>Lemmas\<close>

subsection \<open>The generator\<close>

text \<open>
  The runs of the three loops compose with \<open>and_then\<close>. When every category is in the
  table and every match resolves, a loop yields the resolved matches and ends; a loop can
  only raise a \<^verbatim>\<open>ValueError\<close> of \<^verbatim>\<open>urljoin\<close> or a \<^verbatim>\<open>KeyError\<close> of the table.
\<close>

lemma and_then_None [simp]: "and_then (ys, None) h = (ys @ fst h, snd h)"
  by (simp add: and_then_def)

lemma and_then_Some [simp]: "and_then (ys, Some e) h = (ys, Some e)"
  by (simp add: and_then_def)

lemma and_then_assoc: "and_then (and_then a b) c = and_then a (and_then b c)"
  by (cases a; cases b; cases c) (auto simp: and_then_def split: option.splits)

lemma and_then_empty [simp]: "and_then ([], None) h = h"
  by (simp add: and_then_def)

lemma and_then_error: "snd (and_then g h) = Some e \<Longrightarrow> snd g = Some e \<or> snd h = Some e"
  by (auto simp: and_then_def split: option.splits)

lemma yield_resolved_all:
  "map (resolve_url E url) ms = map Inr us \<Longrightarrow> yield_resolved E url ms = (us, None)"
  by (induction ms arbitrary: us) auto

lemma scan_regexes_all:
  "map (resolve_url E url) (concat (map (\<lambda>regex. re_findall E regex text) regexes)) = map Inr us
   \<Longrightarrow> scan_regexes E url text regexes = (us, None)"
proof (induction regexes arbitrary: us)
  case Nil
  then show ?case by simp
next
  case (Cons regex rest)
  from Cons.prems obtain us1 us2 where us: "us = us1 @ us2"
    and 1: "map (resolve_url E url) (re_findall E regex text) = map Inr us1"
    and 2: "map (resolve_url E url) (concat (map (\<lambda>regex. re_findall E regex text) rest)) = map Inr us2"
    by (auto simp: append_eq_map_conv)
  show ?case
    by (simp add: yield_resolved_all [OF 1] Cons.IH [OF 2] us)
qed

lemma scan_file_types_all:
  "list_all (\<lambda>filetype. FILE_REGEX filetype \<noteq> None) file_types \<Longrightarrow>
   map (resolve_url E url) (raw_matches E text file_types) = map Inr us \<Longrightarrow>
   scan_file_types E url text file_types = (us, None)"
proof (induction file_types arbitrary: us)
  case Nil
  then show ?case by (simp add: raw_matches_def)
next
  case (Cons filetype rest)
  from Cons.prems(1) obtain regexes where r: "FILE_REGEX filetype = Some regexes"
    and known: "list_all (\<lambda>filetype. FILE_REGEX filetype \<noteq> None) rest"
    by auto
  from Cons.prems(2) r obtain us1 us2 where us: "us = us1 @ us2"
    and 1: "map (resolve_url E url) (concat (map (\<lambda>regex. re_findall E regex text) regexes)) = map Inr us1"
    and 2: "map (resolve_url E url) (raw_matches E text rest) = map Inr us2"
    by (auto simp: append_eq_map_conv raw_matches_def patterns_of_def)
  show ?case
    by (simp add: r scan_regexes_all [OF 1] Cons.IH [OF known 2] us)
qed

lemma scan_file_types_append:
  "scan_file_types E url text (xs @ ys) =
     and_then (scan_file_types E url text xs) (scan_file_types E url text ys)"
  by (induction xs) (auto simp: and_then_assoc split: option.splits)

lemma FILE_REGEX_None: "FILE_REGEX filetype = None \<longleftrightarrow> filetype \<notin> {''jpg'', ''mp3'', ''pdf'', ''png''}"
  by (auto simp: FILE_REGEX_def)

subsection \<open>urllib.parse\<close>

text \<open>
  \<^verbatim>\<open>urlsplit\<close>, \<^verbatim>\<open>urlparse\<close> and \<^verbatim>\<open>urljoin\<close> raise nothing but a
  \<^verbatim>\<open>ValueError\<close>. A network location that \<^verbatim>\<open>urlsplit\<close> returns has passed its
  tests and holds no delimiter, and a URL put together from a scheme with an authority and
  such a network location is read back with that scheme and that network location.
\<close>

lemma urlsplit_error: "urlsplit E url scheme = Inl e \<Longrightarrow> e = ValueError"
  by (auto simp: urlsplit_def Let_def split: prod.splits if_splits)

lemma urlparse_error: "urlparse E url scheme = Inl e \<Longrightarrow> e = ValueError"
  by (auto simp: urlparse_def Let_def split: sum.splits prod.splits if_splits dest: urlsplit_error)

lemma urljoin_error: "urljoin E base url = Inl e \<Longrightarrow> e = ValueError"
  by (auto simp: urljoin_def Let_def split: sum.splits prod.splits if_splits dest: urlparse_error)

lemma yield_resolved_error: "snd (yield_resolved E url ms) = Some e \<Longrightarrow> e = ValueError"
proof (induction ms)
  case Nil
  then show ?case by simp
next
  case (Cons m ms)
  then show ?case
    by (auto simp: resolve_url_def split: sum.splits dest: urljoin_error)
qed

lemma scan_regexes_error: "snd (scan_regexes E url text regexes) = Some e \<Longrightarrow> e = ValueError"
proof (induction regexes)
  case Nil
  then show ?case by simp
next
  case (Cons regex regexes)
  then show ?case
    by (auto dest!: and_then_error dest: yield_resolved_error)
qed

lemma scan_file_types_error:
  "snd (scan_file_types E url text fts) = Some e \<Longrightarrow> e = ValueError \<or> (\<exists>k. e = KeyError k)"
proof (induction fts)
  case Nil
  then show ?case by simp
next
  case (Cons ft fts)
  then show ?case
    by (auto split: option.splits dest!: and_then_error dest: scan_regexes_error)
qed

lemma scheme_known:
  assumes "s \<in> set uses_netloc" and "s \<noteq> []"
  shows "split_scheme d (s @ '':'' @ x) = (s, x)"
    and "lstrip c0_control_or_space (s @ x) = s @ x"
    and "filter (\<lambda>c. \<not> unsafe_url_byte c) s = s"
proof -
  from assms show "split_scheme d (s @ '':'' @ x) = (s, x)"
    unfolding uses_netloc_def
    by (auto simp: split_scheme_def before_def isascii_def isalpha_def lower_def scheme_chars_def
        ascii_lowercase_def ascii_uppercase_def)
  from assms show "lstrip c0_control_or_space (s @ x) = s @ x"
    unfolding uses_netloc_def
    by (auto simp: lstrip_def c0_control_or_space_def)
  from assms show "filter (\<lambda>c. \<not> unsafe_url_byte c) s = s"
    unfolding uses_netloc_def
    by (auto simp: unsafe_url_byte_def)
qed

lemma brackets_ok_Nil [simp]: "brackets_ok E []"
  by (simp add: brackets_ok_def)

lemma checknetloc_Nil [simp]: "checknetloc E []"
  by (simp add: checknetloc_def)

lemma urlsplit_result:
  assumes "urlsplit E url d = Inr (s, n, p, q, f)"
  defines "url2 \<equiv> snd (split_scheme (filter (\<lambda>c. \<not> unsafe_url_byte c) (strip c0_control_or_space d))
      (filter (\<lambda>c. \<not> unsafe_url_byte c) (lstrip c0_control_or_space url)))"
  shows "n = (if take 2 url2 = ''//'' then fst (splitnetloc url2) else [])"
    and "brackets_ok E n" and "checknetloc E n"
proof -
  let ?n = "if take 2 url2 = ''//'' then fst (splitnetloc url2) else []"
  have *: "urlsplit E url d = Inl ValueError \<or> (\<exists>s p q f. urlsplit E url d = Inr (s, ?n, p, q, f) \<and>
      checknetloc E ?n \<and> (take 2 url2 = ''//'' \<longrightarrow> brackets_ok E ?n))"
    unfolding urlsplit_def url2_def Let_def split_beta
    by (simp only: if_distrib [of fst] if_distrib [of snd] fst_conv snd_conv split: if_split) blast
  with assms(1) show "n = ?n" and "checknetloc E n" and "brackets_ok E n"
    by (auto split: if_splits)
qed

lemma split_scheme_subset: "set (snd (split_scheme d url)) \<subseteq> set url"
  by (auto simp: split_scheme_def Let_def dest: in_set_dropD)

lemma urlsplit_netloc_ok:
  assumes "urlsplit E url d = Inr (s, n, p, q, f)"
  shows "netloc_ok E n"
proof -
  let ?url1 = "filter (\<lambda>c. \<not> unsafe_url_byte c) (lstrip c0_control_or_space url)"
  let ?d1 = "filter (\<lambda>c. \<not> unsafe_url_byte c) (strip c0_control_or_space d)"
  let ?url2 = "snd (split_scheme ?d1 ?url1)"
  note R = urlsplit_result [OF assms]
  have "set n \<subseteq> set (takeWhile (\<lambda>c. c \<notin> set ''/?#'') (drop 2 ?url2))"
    unfolding R(1) by (auto simp: splitnetloc_def)
  then have 1: "\<forall>c\<in>set n. c \<notin> set ''/?#'' \<and> c \<in> set ?url2"
    by (auto dest!: subsetD dest: set_takeWhileD in_set_dropD)
  have "\<forall>c\<in>set ?url2. \<not> unsafe_url_byte c"
    using split_scheme_subset [of ?d1 ?url1] by auto
  with 1 have "list_all (\<lambda>c. c \<notin> set ''/?#'' \<and> \<not> unsafe_url_byte c) n"
    unfolding list_all_iff by blast
  with R(2,3) show ?thesis
    by (simp only: netloc_ok_def simp_thms)
qed

lemma urlparse_urlsplit:
  assumes "urlparse E url d = Inr (s, n, p, par, q, f)"
  shows "\<exists>p'. urlsplit E url d = Inr (s, n, p', q, f)"
proof (cases "urlsplit E url d")
  case (Inl e)
  with assms show ?thesis by (simp add: urlparse_def)
next
  case (Inr r)
  obtain s' n' p' q' f' where r: "r = (s', n', p', q', f')"
    by (cases r)
  with Inr assms have "s' = s \<and> n' = n \<and> q' = q \<and> f' = f"
    by (simp add: urlparse_def split_beta split: if_splits)
  with Inr r show ?thesis by blast
qed

lemma urlparse_netloc_ok:
  "urlparse E url d = Inr (s, n, p, par, q, f) \<Longrightarrow> netloc_ok E n"
  using urlparse_urlsplit urlsplit_netloc_ok by blast

lemma urlunsplit_shape:
  assumes "s \<noteq> []" and "s \<in> set uses_netloc"
  shows "\<exists>rest. urlunsplit (s, n, p, q, f) = s @ ''://'' @ n @ rest \<and>
           (rest = [] \<or> hd rest \<in> set ''/?#'')"
proof -
  let ?p = "if p \<noteq> [] \<and> take 1 p \<noteq> ''/'' then ''/'' @ p else p"
  let ?rest = "?p @ (if q \<noteq> [] then ''?'' @ q else []) @ (if f \<noteq> [] then ''#'' @ f else [])"
  have "urlunsplit (s, n, p, q, f) = s @ ''://'' @ n @ ?rest"
    using assms by (simp add: urlunsplit_def Let_def)
  moreover have "?rest = [] \<or> hd ?rest \<in> set ''/?#''"
    by (cases p) auto
  ultimately show ?thesis by blast
qed

lemma urlunparse_shape:
  assumes "s \<noteq> []" and "s \<in> set uses_netloc"
  shows "\<exists>rest. urlunparse (s, n, p, par, q, f) = s @ ''://'' @ n @ rest \<and>
           (rest = [] \<or> hd rest \<in> set ''/?#'')"
  using urlunsplit_shape [OF assms] by (simp add: urlunparse_def)

lemma takeWhile_netloc:
  assumes "list_all (\<lambda>c. c \<notin> set ''/?#'' \<and> \<not> unsafe_url_byte c) n"
    and "rest = [] \<or> hd rest \<in> set ''/?#''"
  shows "takeWhile (\<lambda>c. c \<notin> set ''/?#'') (n @ rest) = n"
proof -
  from assms(1) have n: "\<forall>c\<in>set n. c \<notin> set ''/?#''"
    by (simp add: list_all_iff)
  from assms(2) have "takeWhile (\<lambda>c. c \<notin> set ''/?#'') rest = []"
    by (cases rest) auto
  with n show ?thesis
    by (simp add: takeWhile_append2)
qed

lemma origin_assembled:
  assumes "s \<noteq> []" and "s \<in> set uses_netloc" and "netloc_ok E n"
    and "rest = [] \<or> hd rest \<in> set ''/?#''"
  shows "origin E (s @ ''://'' @ n @ rest) = Inr (s, n)"
proof -
  let ?safe = "filter (\<lambda>c. \<not> unsafe_url_byte c)"
  from assms(3) have nl: "list_all (\<lambda>c. c \<notin> set ''/?#'' \<and> \<not> unsafe_url_byte c) n"
    and b: "brackets_ok E n" and c: "checknetloc E n"
    by (simp_all add: netloc_ok_def)
  from nl have fn: "?safe n = n"
    by (simp add: list_all_iff)
  have fr: "?safe rest = [] \<or> hd (?safe rest) \<in> set ''/?#''"
    using assms(4) by (cases rest) (auto simp: unsafe_url_byte_def)
  have 1: "?safe (lstrip c0_control_or_space (s @ ''://'' @ n @ rest)) = s @ '':'' @ (''//'' @ n @ ?safe rest)"
    using scheme_known(2,3) [OF assms(2,1)] fn
    by (simp add: unsafe_url_byte_def)
  have 2: "split_scheme d (s @ '':'' @ (''//'' @ n @ ?safe rest)) = (s, ''//'' @ n @ ?safe rest)" for d
    by (rule scheme_known(1) [OF assms(2,1)])
  have 3: "splitnetloc (''//'' @ n @ ?safe rest) = (n, dropWhile (\<lambda>c. c \<notin> set ''/?#'') (n @ ?safe rest))"
    using takeWhile_netloc [OF nl fr] by (simp add: splitnetloc_def)
  have "\<exists>p q f. urlsplit E (s @ ''://'' @ n @ rest) [] = Inr (s, n, p, q, f)"
    unfolding urlsplit_def 1 2 Let_def using b c 3
    by (simp add: split_beta)
  then obtain p q f where "urlsplit E (s @ ''://'' @ n @ rest) [] = Inr (s, n, p, q, f)"
    by blast
  then show ?thesis
    by (simp add: origin_def urlparse_def Let_def split_beta)
qed

subsection \<open>What the extraction depends on\<close>

text \<open>
  The extraction reads the world through the page, the regular expression engine and
  the two tests of \<^verbatim>\<open>urllib.parse\<close> only; in particular not through the pool.
\<close>

lemma urljoin_library:
  assumes "same_library E E'"
  shows "urljoin E' = urljoin E"
proof -
  from assms have b: "brackets_ok E' = brackets_ok E" and c: "checknetloc E' = checknetloc E"
    by (simp_all add: same_library_def brackets_ok_def checknetloc_def fun_eq_iff)
  have s: "urlsplit E' = urlsplit E"
    by (intro ext) (simp only: urlsplit_def b c)
  have p: "urlparse E' = urlparse E"
    by (intro ext) (simp only: urlparse_def s)
  show ?thesis
    by (intro ext) (simp only: urljoin_def p)
qed

lemma yield_resolved_library:
  "same_library E E' \<Longrightarrow> yield_resolved E' url ms = yield_resolved E url ms"
  by (induction ms) (simp_all add: resolve_url_def urljoin_library split: sum.splits)

lemma scan_regexes_library:
  assumes "same_library E E'"
  shows "scan_regexes E' url page regexes = scan_regexes E url page regexes"
proof -
  from assms have "re_findall E' = re_findall E"
    by (simp add: same_library_def)
  then show ?thesis
    by (induction regexes) (simp_all add: yield_resolved_library [OF assms])
qed

lemma scan_file_types_library:
  "same_library E E' \<Longrightarrow> scan_file_types E' url page fts = scan_file_types E url page fts"
  by (induction fts) (simp_all add: scan_regexes_library split: option.splits)

lemma same_library_finish [simp]: "same_library E (E\<lparr>finish := f\<rparr>)"
  by (simp add: same_library_def)

lemma extract_urls_finish [simp]:
  "extract_urls (E\<lparr>finish := f\<rparr>) url fts = extract_urls E url fts"
  by (simp add: extract_urls_def scan_file_types_library split: fetched.splits)

lemma fetch_succeeds_finish [simp]: "fetch_succeeds (E\<lparr>finish := f\<rparr>) = fetch_succeeds E"
  by (simp add: fetch_succeeds_def fun_eq_iff)

lemma body_finish [simp]: "body (E\<lparr>finish := f\<rparr>) = body E"
  by (simp add: body_def fun_eq_iff)

lemma writes_finish [simp]: "writes (E\<lparr>finish := f\<rparr>) = writes E"
  by (simp add: writes_def fun_eq_iff)

subsection \<open>One download\<close>

text \<open>
  \<^verbatim>\<open>download_url\<close> by cases: the fetch fails and nothing is written; the fetch
  succeeds and the write fails; both succeed.
\<close>

lemma download_url_cases:
  "download_url E url d fs =
     (if \<not> fetch_succeeds E url then (Inr None, fs)
      else if \<not> writes E d url then (Inl OSError, fs)
      else (Inr (Some (local_path_of d url)), fs(local_path_of d url \<mapsto> body E url)))"
  by (auto simp: download_url_def fetch_succeeds_def writes_def body_def local_path_of_def Let_def
      split: fetched.splits)

lemma fst_download_url: "fst (download_url E url d fs) = outcome E d url"
  by (simp add: outcome_def download_url_cases)

lemma store_cases:
  "store E d url fs = (if writes E d url then fs(local_path_of d url \<mapsto> body E url) else fs)"
  by (simp add: store_def download_url_cases writes_def)

lemma outcome_cases:
  "outcome E d url =
     (if \<not> fetch_succeeds E url then Inr None
      else if \<not> writes E d url then Inl OSError
      else Inr (Some (local_path_of d url)))"
  by (simp add: outcome_def download_url_cases)

lemma succeeds_writes: "succeeds E d = writes E d"
  by (simp add: succeeds_def download_url_cases fun_eq_iff writes_def)

lemma succeeds_finish [simp]: "succeeds (E\<lparr>finish := f\<rparr>) = succeeds E"
  by (simp add: succeeds_writes fun_eq_iff)

lemma download_url_fetch_failure:
  "\<not> fetch_succeeds E url \<Longrightarrow> download_url E url destination fs = (Inr None, fs)"
  by (simp add: download_url_cases)

lemma download_url_write_failure:
  "fetch_succeeds E url \<Longrightarrow> \<not> open_wb_ok E (local_path_of destination url) \<Longrightarrow>
   download_url E url destination fs = (Inl OSError, fs)"
  by (simp add: download_url_cases writes_def)

subsection \<open>The pool\<close>

text \<open>
  Whatever the instants, \<^verbatim>\<open>executor.map\<close> returns the outcome of every
  submitted download, in submission order, and leaves the store that the downloads give
  when performed one after the other in some order. A file that was written is there at the
  end, and it holds the body of its download when no other download went to its path.
\<close>

lemma fst_run_pool:
  "fst (run_pool E d jobs fs) = map (\<lambda>job. (fst job, outcome E d (snd job))) jobs"
proof (induction jobs arbitrary: fs)
  case Nil
  show ?case by simp
next
  case (Cons job jobs)
  obtain i u where job: "job = (i, u)" by (cases job)
  show ?case
    using Cons.IH [of "snd (download_url E u d fs)"] fst_download_url [of E u d fs]
    by (simp add: job split_beta Let_def)
qed

lemma snd_run_pool:
  "snd (run_pool E d jobs fs) = fold (store E d) (map snd jobs) fs"
proof (induction jobs arbitrary: fs)
  case Nil
  show ?case by simp
next
  case (Cons job jobs)
  obtain i u where job: "job = (i, u)" by (cases job)
  show ?case
    using Cons.IH [of "snd (download_url E u d fs)"]
    by (simp add: job split_beta Let_def store_def)
qed

lemma resort_by_index:
  fixes g :: "nat \<times> 'a \<Rightarrow> nat \<times> 'b"
  assumes "\<And>job. fst (g job) = fst job"
  shows "sort_key fst (map g (sort_key k (enumerate 0 xs))) = map g (enumerate 0 xs)"
proof (rule sort_key_inj_key_eq)
  show "mset (map g (sort_key k (enumerate 0 xs))) = mset (map g (enumerate 0 xs))"
    by simp
  have fg: "map fst (map g ys) = map fst ys" for ys
    by (simp add: assms)
  have "distinct (map fst (map g (enumerate 0 xs)))"
    unfolding fg by simp
  then have "inj_on fst (set (map g (enumerate 0 xs)))"
    by (simp only: distinct_map)
  then show "inj_on fst (set (map g (sort_key k (enumerate 0 xs))))"
    by simp
  show "sorted (map fst (map g (enumerate 0 xs)))"
    unfolding fg by simp
qed

lemma fst_executor_map: "fst (executor_map E urls d fs) = map (outcome E d) urls"
proof -
  let ?g = "\<lambda>job :: nat \<times> string. (fst job, outcome E d (snd job))"
  have "fst (executor_map E urls d fs) =
          map snd (sort_key fst (map ?g (sort_key (\<lambda>job. finish E (fst job)) (enumerate 0 urls))))"
    using fst_run_pool [of E d "sort_key (\<lambda>job. finish E (fst job)) (enumerate 0 urls)" fs]
    by (simp add: executor_map_def Let_def split_beta)
  also have "\<dots> = map snd (map ?g (enumerate 0 urls))"
    by (subst resort_by_index) simp_all
  also have "\<dots> = map (outcome E d) (map snd (enumerate 0 urls))"
    by (simp only: map_map comp_def snd_conv)
  finally show ?thesis by simp
qed

lemma snd_executor_map:
  "\<exists>order. mset order = mset urls \<and> snd (executor_map E urls d fs) = fold (store E d) order fs"
proof -
  let ?jobs = "sort_key (\<lambda>job. finish E (fst job)) (enumerate 0 urls)"
  have "snd (executor_map E urls d fs) = fold (store E d) (map snd ?jobs) fs"
    using snd_run_pool [of E d ?jobs fs] by (simp add: executor_map_def Let_def split_beta)
  moreover have "mset (map snd ?jobs) = mset urls"
  proof -
    have "mset (map snd ?jobs) = image_mset snd (mset (enumerate 0 urls))"
      by (simp only: mset_map mset_sort)
    also have "\<dots> = mset (map snd (enumerate 0 urls))"
      by (simp only: mset_map)
    finally show ?thesis by simp
  qed
  ultimately show ?thesis by blast
qed

lemma executor_map_Nil: "executor_map E [] d fs = ([], fs)"
  by (simp add: executor_map_def)

lemma written_stays:
  "u \<in> set us \<Longrightarrow> writes E d u \<Longrightarrow> fold (store E d) us fs (local_path_of d u) \<noteq> None"
proof (induction us arbitrary: fs rule: rev_induct)
  case Nil
  then show ?case by simp
next
  case (snoc x us)
  then show ?case by (auto simp: store_cases)
qed

lemma written_last:
  "distinct (map (local_path_of d) (filter (writes E d) us)) \<Longrightarrow> u \<in> set us \<Longrightarrow> writes E d u \<Longrightarrow>
   fold (store E d) us fs (local_path_of d u) = Some (body E u)"
proof (induction us arbitrary: fs rule: rev_induct)
  case Nil
  then show ?case by simp
next
  case (snoc x us)
  show ?case
  proof (cases "u = x")
    case True
    with snoc.prems show ?thesis by (simp add: store_cases)
  next
    case False
    with snoc.prems have u: "u \<in> set us" by simp
    from snoc.prems(1) have d: "distinct (map (local_path_of d) (filter (writes E d) us))"
      by (simp split: if_splits)
    have "writes E d x \<Longrightarrow> local_path_of d x \<noteq> local_path_of d u"
      using snoc.prems(1,3) u by (auto simp: image_iff)
    then show ?thesis
      using snoc.IH [OF d u snoc.prems(3)] by (auto simp: store_cases)
  qed
qed

lemma filter_succeeds_writes:
  "list_all (\<lambda>u. fetch_succeeds E u \<longrightarrow> writes E d u) urls \<Longrightarrow>
   filter (fetch_succeeds E) urls = filter (writes E d) urls"
  by (induction urls) (auto simp: writes_def)

lemma filter_succeeds:
  "list_all (\<lambda>u. fetch_succeeds E u \<longrightarrow> writes E d u) urls \<Longrightarrow>
   filter (fetch_succeeds E) urls = filter (succeeds E d) urls"
  by (simp add: succeeds_writes filter_succeeds_writes)

lemma pool_store_present:
  assumes "list_all (\<lambda>u. fetch_succeeds E u \<longrightarrow> writes E d u) urls"
  shows "list_all (\<lambda>p. snd (executor_map E urls d fs) p \<noteq> None)
           (map (local_path_of d) (filter (fetch_succeeds E) urls))"
proof -
  obtain order where o: "mset order = mset urls"
    and s: "snd (executor_map E urls d fs) = fold (store E d) order fs"
    using snd_executor_map by blast
  from o have "set order = set urls" by (rule mset_eq_setD)
  have "fold (store E d) order fs (local_path_of d u) \<noteq> None"
    if "u \<in> set urls" and "fetch_succeeds E u" for u
  proof (rule written_stays)
    from that \<open>set order = set urls\<close> show "u \<in> set order" by simp
    from that assms show "writes E d u" by (auto simp: list_all_iff)
  qed
  then show ?thesis
    by (simp add: s list_all_iff)
qed

lemma pool_store_distinct:
  assumes "list_all (\<lambda>u. fetch_succeeds E u \<longrightarrow> writes E d u) urls"
    and "distinct (map (local_path_of d) (filter (fetch_succeeds E) urls))"
  shows "map (st_size (snd (executor_map E urls d fs)))
           (map (local_path_of d) (filter (fetch_succeeds E) urls))
         = map (byte_count E) (filter (fetch_succeeds E) urls)"
proof -
  obtain order where o: "mset order = mset urls"
    and s: "snd (executor_map E urls d fs) = fold (store E d) order fs"
    using snd_executor_map by blast
  from o have set: "set order = set urls" by (rule mset_eq_setD)
  have "mset (map (local_path_of d) (filter (writes E d) order))
        = mset (map (local_path_of d) (filter (writes E d) urls))"
    by (simp add: o)
  then have "distinct (map (local_path_of d) (filter (writes E d) order))
             \<longleftrightarrow> distinct (map (local_path_of d) (filter (writes E d) urls))"
    by (rule mset_eq_imp_distinct_iff)
  with assms have d: "distinct (map (local_path_of d) (filter (writes E d) order))"
    by (simp add: filter_succeeds_writes)
  have "st_size (fold (store E d) order fs) (local_path_of d u) = byte_count E u"
    if "u \<in> set urls" and "fetch_succeeds E u" for u
  proof -
    from that assms(1) have "writes E d u" by (auto simp: list_all_iff)
    with written_last [OF d, of u] that set show ?thesis
      by (simp add: st_size_def byte_count_def)
  qed
  then show ?thesis by (simp add: s)
qed

subsection \<open>Collecting the results\<close>

text \<open>
  The list comprehension keeps the paths of the successful downloads and raises the
  first \<^verbatim>\<open>OSError\<close> among the results; the sizes of files that are there add up.
\<close>

lemma collect_files_outcomes:
  "collect_files (map (outcome E d) urls) = Inr files \<Longrightarrow>
   files = map (local_path_of d) (filter (fetch_succeeds E) urls) \<and>
   list_all (\<lambda>u. fetch_succeeds E u \<longrightarrow> writes E d u) urls"
proof (induction urls arbitrary: files)
  case Nil
  then show ?case by simp
next
  case (Cons u urls)
  then show ?case
    by (auto simp: outcome_cases writes_def split: if_splits sum.splits)
qed

lemma collect_files_writes:
  "list_all (\<lambda>u. fetch_succeeds E u \<longrightarrow> writes E d u) urls \<Longrightarrow>
   collect_files (map (outcome E d) urls) = Inr (map (local_path_of d) (filter (fetch_succeeds E) urls))"
  by (induction urls) (auto simp: outcome_cases writes_def)

lemma collect_files_error: "collect_files (map (outcome E d) urls) = Inl e \<Longrightarrow> e = OSError"
proof (induction urls)
  case Nil
  then show ?case by simp
next
  case (Cons u urls)
  then show ?case
    by (auto simp: outcome_cases split: if_splits sum.splits option.splits)
qed

lemma total_size_present:
  "list_all (\<lambda>p. fs p \<noteq> None) paths \<Longrightarrow> total_size fs paths = Inr (sum_list (map (st_size fs) paths))"
  by (induction paths) (auto simp: st_size_def)

lemma total_size_Inr:
  "total_size fs paths = Inr n \<Longrightarrow> n = sum_list (map (st_size fs) paths)"
  by (induction paths arbitrary: n) (auto simp: st_size_def split: option.splits sum.splits)

lemma total_size_error: "total_size fs paths = Inl e \<Longrightarrow> e = OSError"
  by (induction paths) (auto split: option.splits sum.splits)

subsection \<open>crawl\<close>

text \<open>
  \<^verbatim>\<open>crawl\<close> returns a report exactly when the pool has a worker, the generator
  ends, no download raises and time has elapsed; then the report is \<open>report_of\<close> the
  number of successful downloads and the sizes on disk.
\<close>

lemma crawl_report_D:
  assumes "crawl E url fts d cpus fs = (urls, Inr (rep, fs1))"
  shows "0 < cpus" and "extract_urls E url fts = (urls, None)"
    and "list_all (\<lambda>u. fetch_succeeds E u \<longrightarrow> writes E d u) urls"
    and "time_end E \<noteq> time_start E"
    and "fs1 = snd (executor_map E urls d fs)"
    and "rep = report_of E (length (filter (fetch_succeeds E) urls))
           (sum_list (map (st_size fs1) (map (local_path_of d) (filter (fetch_succeeds E) urls))))"
proof -
  from assms show c: "0 < cpus"
    by (auto simp: crawl_def split: if_splits)
  from assms c obtain us x where ex: "extract_urls E url fts = (us, x)"
    by (cases "extract_urls E url fts") auto
  from assms c ex show e: "extract_urls E url fts = (urls, None)"
    by (auto simp: crawl_def Let_def split: option.splits prod.splits sum.splits if_splits)
  obtain results fs' where em: "executor_map E urls d fs = (results, fs')"
    by (cases "executor_map E urls d fs")
  then have r: "results = map (outcome E d) urls"
    using fst_executor_map [of E urls d fs] by simp
  from assms c e em have 1:
    "(case collect_files results of
        Inl e \<Rightarrow> (urls, Inl e)
      | Inr files \<Rightarrow>
         (case total_size fs' files of
            Inl e \<Rightarrow> (urls, Inl e)
          | Inr bytes \<Rightarrow>
              if time_end E - time_start E = 0 then (urls, Inl ZeroDivisionError)
              else (urls, Inr (report_of E (length files) bytes, fs')))) = (urls, Inr (rep, fs1))"
    by (simp add: crawl_def report_of_def Let_def cong: sum.case_cong if_cong)
  then obtain files where cf: "collect_files results = Inr files"
    by (cases "collect_files results") simp_all
  with 1 obtain bytes where ts: "total_size fs' files = Inr bytes"
    by (cases "total_size fs' files") simp_all
  from 1 cf ts have t: "time_end E - time_start E \<noteq> 0"
    by (auto split: if_splits)
  with 1 cf ts have f: "fs1 = fs'" and rp: "rep = report_of E (length files) bytes"
    by simp_all
  from t show "time_end E \<noteq> time_start E" by simp
  from f em show "fs1 = snd (executor_map E urls d fs)" by simp
  from cf r have files: "files = map (local_path_of d) (filter (fetch_succeeds E) urls)"
    and w: "list_all (\<lambda>u. fetch_succeeds E u \<longrightarrow> writes E d u) urls"
    using collect_files_outcomes by blast+
  from w show "list_all (\<lambda>u. fetch_succeeds E u \<longrightarrow> writes E d u) urls" .
  from ts have "bytes = sum_list (map (st_size fs') files)" by (rule total_size_Inr)
  with rp files f show "rep = report_of E (length (filter (fetch_succeeds E) urls))
           (sum_list (map (st_size fs1) (map (local_path_of d) (filter (fetch_succeeds E) urls))))"
    by simp
qed

lemma crawl_report_I:
  assumes "0 < cpus" and "extract_urls E url fts = (urls, None)"
    and "list_all (\<lambda>u. fetch_succeeds E u \<longrightarrow> writes E d u) urls"
    and "time_end E \<noteq> time_start E"
  shows "crawl E url fts d cpus fs =
     (urls, Inr (report_of E (length (filter (fetch_succeeds E) urls))
        (sum_list (map (st_size (snd (executor_map E urls d fs)))
           (map (local_path_of d) (filter (fetch_succeeds E) urls)))),
       snd (executor_map E urls d fs)))"
proof -
  obtain results fs' where em: "executor_map E urls d fs = (results, fs')"
    by (cases "executor_map E urls d fs")
  then have r: "results = map (outcome E d) urls"
    using fst_executor_map [of E urls d fs] by simp
  have cf: "collect_files results =
      Inr (map (local_path_of d) (filter (fetch_succeeds E) urls))"
    unfolding r using assms(3) by (rule collect_files_writes)
  have "list_all (\<lambda>p. fs' p \<noteq> None) (map (local_path_of d) (filter (fetch_succeeds E) urls))"
    using pool_store_present [OF assms(3), of fs] em by simp
  then have ts: "total_size fs' (map (local_path_of d) (filter (fetch_succeeds E) urls)) =
      Inr (sum_list (map (st_size fs') (map (local_path_of d) (filter (fetch_succeeds E) urls))))"
    by (rule total_size_present)
  show ?thesis
    using assms(1,2,4) em cf ts by (simp add: crawl_def report_of_def)
qed

lemma crawl_error_after_page:
  assumes "fetch_succeeds E url" and "snd (crawl E url fts d cpus fs) = Inl e"
  shows "e = ValueError \<or> (\<exists>k. e = KeyError k) \<or> e = OSError \<or> e = ZeroDivisionError"
proof (cases "cpus \<le> 0")
  case True
  with assms(2) show ?thesis by (simp add: crawl_def)
next
  case False
  from assms(1) obtain status page_text content where
    page: "requests_get E url = Response status page_text content" "ok status"
    by (auto simp: fetch_succeeds_def split: fetched.splits)
  obtain urls x where ex: "scan_file_types E url page_text fts = (urls, x)"
    by (cases "scan_file_types E url page_text fts")
  show ?thesis
  proof (cases x)
    case (Some e')
    with ex assms(2) False page have "e = e'"
      by (simp add: crawl_def extract_urls_def)
    moreover from ex Some have "snd (scan_file_types E url page_text fts) = Some e'" by simp
    ultimately show ?thesis
      using scan_file_types_error by blast
  next
    case None
    obtain results fs1 where em: "executor_map E urls d fs = (results, fs1)"
      by (cases "executor_map E urls d fs")
    then have r: "results = map (outcome E d) urls"
      using fst_executor_map [of E urls d fs] by simp
    show ?thesis
    proof (cases "collect_files results")
      case (Inl e')
      with ex None em assms(2) False page have "e = e'"
        by (simp add: crawl_def extract_urls_def)
      with Inl r show ?thesis
        using collect_files_error by blast
    next
      case (Inr files)
      show ?thesis
      proof (cases "total_size fs1 files")
        case (Inl e')
        with Inr ex None em assms(2) False page have "e = e'"
          by (simp add: crawl_def extract_urls_def)
        with Inl show ?thesis
          using total_size_error by blast
      next
        case (Inr bytes)
        with \<open>collect_files results = Inr files\<close> ex None em assms(2) False page show ?thesis
          by (simp add: crawl_def extract_urls_def Let_def split: if_splits)
      qed
    qed
  qed
qed

lemma crawl_bandwidth:
  "crawl E url file_types destination cpus fs = (urls, Inr (rep, fs1)) \<Longrightarrow>
   time_total rep = time_end E - time_start E \<and> time_total rep \<noteq> 0 \<and>
   bandwidth rep = Mbytes_downloaded rep / time_total rep"
  using crawl_report_D(4,6) [of E url file_types destination cpus fs urls rep fs1]
  by (simp add: report_of_def)

lemma crawl_zero_elapsed_never_reports:
  "time_end E = time_start E \<Longrightarrow> snd (crawl E url file_types destination cpus fs) \<noteq> Inr r"
  using crawl_report_D(4) [of E url file_types destination cpus fs
      "fst (crawl E url file_types destination cpus fs)" "fst r" "snd r"]
  by (auto simp: prod_eq_iff)

section \<open>The claims\<close>

subsection \<open>C1: the tallies of the report\<close>

text \<open>
  Claim C1 says that \<^verbatim>\<open>crawl\<close> reports the number \<open>K\<close> of successful downloads
  and, as the byte total, the sum of the byte counts of those downloads, whatever the
  order of completion. The count is right. The byte total is not computed from what was
  downloaded: \<^verbatim>\<open>download_url\<close> returns a path only, and \<^verbatim>\<open>crawl\<close> adds up
  \<^verbatim>\<open>os.stat(file).st_size\<close> over the returned paths once the pool has shut down. Two
  links with the same last path segment are written to the same file, whose final size is
  then counted twice. On the page with \<^verbatim>\<open>a/x.jpg\<close> (one byte) and \<^verbatim>\<open>b/x.jpg\<close>
  (two bytes) both downloads succeed, three bytes are downloaded, and the report counts
  four bytes when the second download completes last and two when the first does.
\<close>

theorem crawl_total_bytes_counterexample:
  "fst (crawl (clash_site [] 0 1 first_come) page_url [''jpg''] ''out'' 1 Map.empty) =
     [''http://h.example/p/a/x.jpg'', ''http://h.example/p/b/x.jpg''] \<and>
   filter (succeeds (clash_site [] 0 1 first_come) ''out'')
     [''http://h.example/p/a/x.jpg'', ''http://h.example/p/b/x.jpg''] =
     [''http://h.example/p/a/x.jpg'', ''http://h.example/p/b/x.jpg''] \<and>
   map (byte_count (clash_site [] 0 1 first_come))
     [''http://h.example/p/a/x.jpg'', ''http://h.example/p/b/x.jpg''] = [1, 2] \<and>
   (\<Sum>u\<leftarrow>[''http://h.example/p/a/x.jpg'', ''http://h.example/p/b/x.jpg''].
      byte_count (clash_site [] 0 1 first_come) u) = 3 \<and>
   reported (snd (crawl (clash_site [] 0 1 first_come) page_url [''jpg''] ''out'' 1 Map.empty)) =
     Some \<lparr>files_downloaded = 2, Mbytes_downloaded = 4 / (1024 * 1024), time_total = 1,
          bandwidth = 4 / (1024 * 1024) / 1\<rparr> \<and>
   reported (snd (crawl (clash_site [] 0 1 last_come) page_url [''jpg''] ''out'' 1 Map.empty)) =
     Some \<lparr>files_downloaded = 2, Mbytes_downloaded = 2 / (1024 * 1024), time_total = 1,
          bandwidth = 2 / (1024 * 1024) / 1\<rparr>"
  by code_simp

text \<open>
  Claim C1, amended. When \<^verbatim>\<open>crawl\<close> returns, \<open>files_downloaded\<close> is the number of
  downloads that returned a path, and the byte total is the sum, over those downloads,
  of the size on disk of the file at the returned path after the pool has shut down.
  When the successful downloads go to pairwise distinct paths, the byte total is the sum
  of their byte counts. For every other order of completion the crawl returns as well, with
  the same file count and, for distinct paths, the same report.
\<close>

theorem crawl_tallies:
  assumes "crawl E url file_types destination cpus fs = (urls, Inr (rep, fs1))"
  shows "files_downloaded rep = length (filter (succeeds E destination) urls) \<and>
         Mbytes_downloaded rep * (1024 * 1024) =
           real (\<Sum>u\<leftarrow>filter (succeeds E destination) urls. st_size fs1 (local_path_of destination u)) \<and>
         (distinct (map (local_path_of destination) (filter (succeeds E destination) urls)) \<longrightarrow>
            Mbytes_downloaded rep * (1024 * 1024) =
              real (\<Sum>u\<leftarrow>filter (succeeds E destination) urls. byte_count E u)) \<and>
         (\<forall>f. \<exists>rep' fs'.
            crawl (E\<lparr>finish := f\<rparr>) url file_types destination cpus fs = (urls, Inr (rep', fs')) \<and>
            files_downloaded rep' = files_downloaded rep \<and>
            (distinct (map (local_path_of destination) (filter (succeeds E destination) urls)) \<longrightarrow>
               rep' = rep))"
proof -
  let ?won = "filter (succeeds E destination) urls"
  note D = crawl_report_D [OF assms]
  have won: "filter (fetch_succeeds E) urls = ?won"
    using D(3) by (rule filter_succeeds)
  have rep: "rep = report_of E (length ?won)
      (sum_list (map (st_size fs1) (map (local_path_of destination) ?won)))"
    using D(6) by (simp only: won)
  have sizes: "sum_list (map (st_size (snd (executor_map E' urls destination fs)))
         (map (local_path_of destination) ?won)) = sum_list (map (byte_count E) ?won)"
    if "distinct (map (local_path_of destination) ?won)"
      and "E' = E\<lparr>finish := f\<rparr> \<or> E' = E" for E' f
  proof -
    from that(2) have same: "fetch_succeeds E' = fetch_succeeds E" "writes E' = writes E"
      "byte_count E' = byte_count E"
      by (auto simp: byte_count_def)
    have "map (st_size (snd (executor_map E' urls destination fs)))
         (map (local_path_of destination) (filter (fetch_succeeds E') urls))
         = map (byte_count E') (filter (fetch_succeeds E') urls)"
      by (rule pool_store_distinct) (use D(3) that(1) in \<open>simp_all only: same won\<close>)
    then show ?thesis
      by (simp only: same won)
  qed
  have 1: "files_downloaded rep = length ?won"
    by (simp add: rep report_of_def)
  have 2: "Mbytes_downloaded rep * (1024 * 1024) =
      real (\<Sum>u\<leftarrow>?won. st_size fs1 (local_path_of destination u))"
    by (simp add: rep report_of_def comp_def)
  have 3: "Mbytes_downloaded rep * (1024 * 1024) = real (\<Sum>u\<leftarrow>?won. byte_count E u)"
    if "distinct (map (local_path_of destination) ?won)"
    using sizes [OF that, of E] by (simp add: rep report_of_def D(5))
  have 4: "\<exists>rep' fs'.
      crawl (E\<lparr>finish := f\<rparr>) url file_types destination cpus fs = (urls, Inr (rep', fs')) \<and>
      files_downloaded rep' = files_downloaded rep \<and>
      (distinct (map (local_path_of destination) ?won) \<longrightarrow> rep' = rep)" for f
  proof -
    let ?E = "E\<lparr>finish := f\<rparr>"
    let ?fs = "snd (executor_map ?E urls destination fs)"
    let ?rep = "report_of ?E (length (filter (fetch_succeeds ?E) urls))
        (sum_list (map (st_size ?fs) (map (local_path_of destination) (filter (fetch_succeeds ?E) urls))))"
    have c: "crawl ?E url file_types destination cpus fs = (urls, Inr (?rep, ?fs))"
      by (rule crawl_report_I) (use D in simp_all)
    have n: "files_downloaded ?rep = files_downloaded rep"
      by (simp add: report_of_def rep won)
    have e: "?rep = rep" if "distinct (map (local_path_of destination) ?won)"
      using sizes [OF that, of ?E f] sizes [OF that, of E]
      by (simp add: rep won report_of_def D(5))
    from c n e show ?thesis by blast
  qed
  from 1 2 3 4 show ?thesis by blast
qed

theorem crawl_tallies_witness:
  "(\<exists>fs1. crawl (pdf_site [] 10 12 first_come) page_url [''pdf''] ''out'' 2 Map.empty =
      ([''http://h.example/p/one.pdf'', ''http://h.example/p/two.pdf'', ''http://h.example/p/three.pdf''],
       Inr (report_of (pdf_site [] 10 12 first_come) 2 8, fs1))) \<and>
   length (filter (succeeds (pdf_site [] 10 12 first_come) ''out'')
     [''http://h.example/p/one.pdf'', ''http://h.example/p/two.pdf'', ''http://h.example/p/three.pdf'']) = 2 \<and>
   distinct (map (local_path_of ''out'') (filter (succeeds (pdf_site [] 10 12 first_come) ''out'')
     [''http://h.example/p/one.pdf'', ''http://h.example/p/two.pdf'', ''http://h.example/p/three.pdf''])) \<and>
   (\<Sum>u\<leftarrow>filter (succeeds (pdf_site [] 10 12 first_come) ''out'')
     [''http://h.example/p/one.pdf'', ''http://h.example/p/two.pdf'', ''http://h.example/p/three.pdf''].
       byte_count (pdf_site [] 10 12 first_come) u) = 8 \<and>
   (\<exists>fs'. crawl ((pdf_site [] 10 12 first_come)\<lparr>finish := last_come\<rparr>) page_url [''pdf''] ''out'' 2 Map.empty =
      ([''http://h.example/p/one.pdf'', ''http://h.example/p/two.pdf'', ''http://h.example/p/three.pdf''],
       Inr (report_of (pdf_site [] 10 12 first_come) 2 8, fs'))) \<and>
   files_downloaded (report_of (pdf_site [] 10 12 first_come) 2 8) = 2 \<and>
   Mbytes_downloaded (report_of (pdf_site [] 10 12 first_come) 2 8) * (1024 * 1024) = 8"
proof -
  let ?E = "pdf_site [] 10 12 first_come"
  let ?urls = "[''http://h.example/p/one.pdf'', ''http://h.example/p/two.pdf'', ''http://h.example/p/three.pdf'']"
  let ?rep = "report_of ?E 2 8"
  let ?c = "crawl ?E page_url [''pdf''] ''out'' 2 Map.empty"
  have 1: "fst ?c = ?urls"
    by code_simp
  have 2: "map_sum id fst (snd ?c) = Inr ?rep"
    by code_simp
  from 2 obtain fs1 where "snd ?c = Inr (?rep, fs1)"
    by (cases "snd ?c") auto
  with 1 have h: "?c = (?urls, Inr (?rep, fs1))"
    by (simp add: prod_eq_iff)
  have k: "length (filter (succeeds ?E ''out'') ?urls) = 2"
    by code_simp
  have d: "distinct (map (local_path_of ''out'') (filter (succeeds ?E ''out'') ?urls))"
    by code_simp
  have s: "(\<Sum>u\<leftarrow>filter (succeeds ?E ''out'') ?urls. byte_count ?E u) = 8"
    by code_simp
  note T = crawl_tallies [OF h]
  from T have t1: "files_downloaded ?rep = length (filter (succeeds ?E ''out'') ?urls)"
    by (rule conjunct1)
  from T d have t3: "Mbytes_downloaded ?rep * (1024 * 1024) =
      real (\<Sum>u\<leftarrow>filter (succeeds ?E ''out'') ?urls. byte_count ?E u)"
    by blast
  from T d obtain rep' fs' where
    "crawl (?E\<lparr>finish := last_come\<rparr>) page_url [''pdf''] ''out'' 2 Map.empty = (?urls, Inr (rep', fs'))"
    and "rep' = ?rep"
    by blast
  then have t4: "\<exists>fs'. crawl (?E\<lparr>finish := last_come\<rparr>) page_url [''pdf''] ''out'' 2 Map.empty =
      (?urls, Inr (?rep, fs'))"
    by blast
  from h have t0: "\<exists>fs1. ?c = (?urls, Inr (?rep, fs1))"
    by blast
  from t1 k have t1': "files_downloaded ?rep = 2"
    by simp
  from t3 s have t3': "Mbytes_downloaded ?rep * (1024 * 1024) = 8"
    by simp
  from t0 k d s t4 t1' t3' show ?thesis
    by (intro conjI)
qed

subsection \<open>C2: one outcome for each submitted download\<close>

text \<open>
  Claim C2 says that as many downloads are submitted as links are yielded and that each
  of them produces exactly one outcome, success or failure, none lost, for every size of
  the pool. One download is submitted for each yielded link by construction, and when
  every download returns, \<^verbatim>\<open>executor.map\<close> hands back one result for each, in
  submission order, whatever the instants of the pool (\<open>fst_executor_map\<close>). A download
  that raises has no outcome: the list comprehension of \<^verbatim>\<open>crawl\<close> stops at it, and
  the results after it are never read. Here three downloads are submitted, the first
  raises, and the failure of the second and the success of the third are lost with the
  whole report.
\<close>

theorem crawl_write_failure_drops_outcomes:
  "fst (crawl (pdf_site [''out/one.pdf''] 10 12 first_come) page_url [''pdf''] ''out'' 2 Map.empty)
     = [''http://h.example/p/one.pdf'', ''http://h.example/p/two.pdf'', ''http://h.example/p/three.pdf''] \<and>
   map (outcome (pdf_site [''out/one.pdf''] 10 12 first_come) ''out'')
     [''http://h.example/p/one.pdf'', ''http://h.example/p/two.pdf'', ''http://h.example/p/three.pdf'']
     = [Inl OSError, Inr None, Inr (Some ''out/three.pdf'')] \<and>
   collect_files [Inl OSError, Inr None, Inr (Some ''out/three.pdf'')] = Inl OSError \<and>
   raised (snd (crawl (pdf_site [''out/one.pdf''] 10 12 first_come) page_url [''pdf''] ''out'' 2 Map.empty))
     = Some OSError"
  by code_simp

subsection \<open>C3: the number of downloads in flight\<close>

text \<open>
  Claim C3 bounds the number of downloads that run at the same instant by the size of the
  pool. \<^verbatim>\<open>crawl\<close> hands \<open>cpus\<close> to \<^verbatim>\<open>ProcessPoolExecutor\<close> and does nothing else
  about it; what runs at the same instant is decided inside the library, and the functions
  above have no instants at which two downloads could overlap. The claim is not stated.
\<close>

subsection \<open>C4: the order of the extracted links\<close>

text \<open>
  Claim C4. For a fixed page and an ordered list of categories, \<^verbatim>\<open>extract_urls\<close>
  yields the URLs in category order, then pattern order within a category, then textual
  match order within a pattern, and keeps duplicates; repeated runs yield the same
  sequence. Stated for a page that was fetched, categories of the table and matches that
  resolve: the run yields exactly the resolved \<open>raw_matches\<close>, one URL for each match,
  and then ends; and so does every other run that gets the same page content, whatever
  else has changed in the world.
\<close>

theorem extract_urls_order:
  assumes "requests_get E url = Response status page content" and "ok status"
    and "list_all (\<lambda>filetype. FILE_REGEX filetype \<noteq> None) file_types"
    and "map (resolve_url E url) (raw_matches E page file_types) = map Inr us"
  shows "extract_urls E url file_types = (us, None) \<and>
         (\<forall>E' status' content'.
            same_library E E' \<and> requests_get E' url = Response status' page content' \<and> ok status'
            \<longrightarrow> extract_urls E' url file_types = (us, None))"
proof -
  have 1: "scan_file_types E url page file_types = (us, None)"
    using assms(3,4) by (rule scan_file_types_all)
  with assms(1,2) have "extract_urls E url file_types = (us, None)"
    by (simp add: extract_urls_def)
  moreover have "extract_urls E' url file_types = (us, None)"
    if "same_library E E'" and "requests_get E' url = Response status' page content'" and "ok status'"
    for E' status' content'
    using that 1 by (simp add: extract_urls_def scan_file_types_library)
  ultimately show ?thesis by blast
qed

text \<open>On the gallery page the image is matched by both patterns of \<^verbatim>\<open>jpg\<close> and is
  yielded twice, before the link of the later category; a second run at another time,
  with another pool, yields the same.\<close>

theorem extract_urls_order_witness:
  "requests_get (gallery_site [] 0 1 first_come) page_url = Response 200 gallery_page gallery_page \<and>
   ok 200 \<and>
   list_all (\<lambda>filetype. FILE_REGEX filetype \<noteq> None) [''jpg'', ''pdf''] \<and>
   map (resolve_url (gallery_site [] 0 1 first_come) page_url)
       (raw_matches (gallery_site [] 0 1 first_come) gallery_page [''jpg'', ''pdf''])
     = map Inr [''http://h.example/p/x.jpg'', ''http://h.example/p/x.jpg'', ''http://h.example/p/doc.pdf''] \<and>
   extract_urls (gallery_site [] 0 1 first_come) page_url [''jpg'', ''pdf'']
     = ([''http://h.example/p/x.jpg'', ''http://h.example/p/x.jpg'', ''http://h.example/p/doc.pdf''], None) \<and>
   same_library (gallery_site [] 0 1 first_come) (gallery_site [''out/x.jpg''] 5 9 last_come) \<and>
   requests_get (gallery_site [''out/x.jpg''] 5 9 last_come) page_url
     = Response 200 gallery_page gallery_page \<and>
   extract_urls (gallery_site [''out/x.jpg''] 5 9 last_come) page_url [''jpg'', ''pdf'']
     = ([''http://h.example/p/x.jpg'', ''http://h.example/p/x.jpg'', ''http://h.example/p/doc.pdf''], None)"
proof -
  let ?E = "gallery_site [] 0 1 first_come"
  let ?E' = "gallery_site [''out/x.jpg''] 5 9 last_come"
  let ?us = "[''http://h.example/p/x.jpg'', ''http://h.example/p/x.jpg'', ''http://h.example/p/doc.pdf'']"
  have h1: "requests_get ?E page_url = Response 200 gallery_page gallery_page"
    by code_simp
  have h2: "ok 200"
    by code_simp
  have h3: "list_all (\<lambda>filetype. FILE_REGEX filetype \<noteq> None) [''jpg'', ''pdf'']"
    by code_simp
  have h4: "map (resolve_url ?E page_url) (raw_matches ?E gallery_page [''jpg'', ''pdf'']) = map Inr ?us"
    by code_simp
  have s: "same_library ?E ?E'"
    by (simp add: same_library_def gallery_site_def table_env_def)
  have g: "requests_get ?E' page_url = Response 200 gallery_page gallery_page"
    by code_simp
  note T = extract_urls_order [OF h1 h2 h3 h4]
  from T have 1: "extract_urls ?E page_url [''jpg'', ''pdf''] = (?us, None)"
    by (rule conjunct1)
  from T s g h2 have 2: "extract_urls ?E' page_url [''jpg'', ''pdf''] = (?us, None)"
    by blast
  from h1 h2 h3 h4 1 s g 2 show ?thesis
    by (intro conjI)
qed

subsection \<open>C5: a download that fails\<close>

text \<open>
  Claim C5 says that \<^verbatim>\<open>download_url\<close> returns a failure, and raises nothing, on a
  transport failure, on a bad status and on a local write failure. For the first two it
  does: the \<^verbatim>\<open>try\<close> block turns them into \<^verbatim>\<open>None\<close> (\<open>download_url_fetch_failure\<close>).
  The write stands outside the \<^verbatim>\<open>try\<close> block: when the file cannot be opened or
  written, the \<^verbatim>\<open>OSError\<close> leaves \<^verbatim>\<open>download_url\<close> (\<open>download_url_write_failure\<close>),
  comes back through \<^verbatim>\<open>executor.map\<close> and ends the crawl. Here the first PDF file
  is fetched and its path cannot be written.
\<close>

theorem download_url_write_failure_raises:
  "requests_get (pdf_site [''out/one.pdf''] 10 12 first_come) ''http://h.example/p/one.pdf''
     = Response 200 [] ''ONE'' \<and>
   open_wb_ok (pdf_site [''out/one.pdf''] 10 12 first_come) ''out/one.pdf'' = False \<and>
   fst (download_url (pdf_site [''out/one.pdf''] 10 12 first_come) ''http://h.example/p/one.pdf'' ''out''
          Map.empty) = Inl OSError \<and>
   raised (snd (crawl (pdf_site [''out/one.pdf''] 10 12 first_come) page_url [''pdf''] ''out'' 2 Map.empty))
     = Some OSError"
  by code_simp

subsection \<open>C6: the base page cannot be fetched\<close>

text \<open>
  Claim C6. When the fetch of the base page fails, \<^verbatim>\<open>crawl\<close> ends before any
  download is submitted: with the \<^verbatim>\<open>RequestException\<close> of \<^verbatim>\<open>requests.get\<close>
  when there is no response, with \<^verbatim>\<open>SystemExit(5)\<close> when the status is in 400..599.
  A crawl whose page was fetched never ends with either of the two, and when the page has
  no matching link it returns the report of no file. (The pool is created first; a pool
  of no workers is refused before the page is requested, hence \<open>0 < cpus\<close>.)
\<close>

theorem crawl_page_fetch_failed:
  assumes "0 < cpus"
  shows "(requests_get E url = RequestFailed \<longrightarrow>
            crawl E url file_types destination cpus fs = ([], Inl RequestException)) \<and>
         (\<forall>status text content. requests_get E url = Response status text content \<and> \<not> ok status \<longrightarrow>
            crawl E url file_types destination cpus fs = ([], Inl (SystemExit 5))) \<and>
         (fetch_succeeds E url \<longrightarrow>
            snd (crawl E url file_types destination cpus fs) \<noteq> Inl RequestException \<and>
            (\<forall>n. snd (crawl E url file_types destination cpus fs) \<noteq> Inl (SystemExit n))) \<and>
         (fetch_succeeds E url \<and> extract_urls E url file_types = ([], None) \<and>
          time_end E \<noteq> time_start E \<longrightarrow>
            crawl E url file_types destination cpus fs = ([], Inr (report_of E 0 0, fs)))"
proof (intro conjI impI allI)
  assume "requests_get E url = RequestFailed"
  with assms show "crawl E url file_types destination cpus fs = ([], Inl RequestException)"
    by (simp add: crawl_def extract_urls_def)
next
  fix status page_text content
  assume "requests_get E url = Response status page_text content \<and> \<not> ok status"
  with assms show "crawl E url file_types destination cpus fs = ([], Inl (SystemExit 5))"
    by (simp add: crawl_def extract_urls_def)
next
  assume "fetch_succeeds E url"
  then show "snd (crawl E url file_types destination cpus fs) \<noteq> Inl RequestException"
    using crawl_error_after_page [of E url file_types destination cpus fs RequestException]
    by auto
next
  fix n
  assume "fetch_succeeds E url"
  then show "snd (crawl E url file_types destination cpus fs) \<noteq> Inl (SystemExit n)"
    using crawl_error_after_page [of E url file_types destination cpus fs "SystemExit n"]
    by auto
next
  assume "fetch_succeeds E url \<and> extract_urls E url file_types = ([], None) \<and>
          time_end E \<noteq> time_start E"
  with assms show "crawl E url file_types destination cpus fs = ([], Inr (report_of E 0 0, fs))"
    using crawl_report_I [of cpus E url file_types "[]" destination fs]
    by (simp add: executor_map_Nil)
qed

theorem crawl_page_fetch_failed_witness:
  "(0::int) < 2 \<and>
   requests_get down_site page_url = RequestFailed \<and>
   crawl down_site page_url [''pdf''] ''out'' 2 Map.empty = ([], Inl RequestException) \<and>
   requests_get missing_site page_url = Response 404 ''Not Found'' ''Not Found'' \<and> \<not> ok 404 \<and>
   crawl missing_site page_url [''pdf''] ''out'' 2 Map.empty = ([], Inl (SystemExit 5)) \<and>
   fetch_succeeds (pdf_site [] 10 12 first_come) page_url \<and>
   extract_urls (pdf_site [] 10 12 first_come) page_url [''jpg''] = ([], None) \<and>
   time_end (pdf_site [] 10 12 first_come) \<noteq> time_start (pdf_site [] 10 12 first_come) \<and>
   crawl (pdf_site [] 10 12 first_come) page_url [''jpg''] ''out'' 2 Map.empty =
     ([], Inr (report_of (pdf_site [] 10 12 first_come) 0 0, Map.empty)) \<and>
   snd (crawl (pdf_site [] 10 12 first_come) page_url [''jpg''] ''out'' 2 Map.empty) \<noteq> Inl RequestException \<and>
   snd (crawl (pdf_site [] 10 12 first_come) page_url [''jpg''] ''out'' 2 Map.empty) \<noteq> Inl (SystemExit 5)"
proof -
  let ?E = "pdf_site [] 10 12 first_come"
  have c: "(0::int) < 2" by simp
  have d: "requests_get down_site page_url = RequestFailed"
    by code_simp
  have m: "requests_get missing_site page_url = Response 404 ''Not Found'' ''Not Found'' \<and> \<not> ok 404"
    by code_simp
  have p: "fetch_succeeds ?E page_url"
    by code_simp
  have x: "extract_urls ?E page_url [''jpg''] = ([], None)"
    by code_simp
  have t: "time_end ?E \<noteq> time_start ?E"
    by (simp add: pdf_site_def table_env_def)
  note D = crawl_page_fetch_failed [OF c, of down_site page_url "[''pdf'']" "''out''" Map.empty]
  note M = crawl_page_fetch_failed [OF c, of missing_site page_url "[''pdf'']" "''out''" Map.empty]
  note P = crawl_page_fetch_failed [OF c, of ?E page_url "[''jpg'']" "''out''" Map.empty]
  from D d have 1: "crawl down_site page_url [''pdf''] ''out'' 2 Map.empty = ([], Inl RequestException)"
    by blast
  from M m have 2: "crawl missing_site page_url [''pdf''] ''out'' 2 Map.empty = ([], Inl (SystemExit 5))"
    by blast
  from P p x t have 3: "crawl ?E page_url [''jpg''] ''out'' 2 Map.empty =
     ([], Inr (report_of ?E 0 0, Map.empty))"
    by blast
  from P p have 4: "snd (crawl ?E page_url [''jpg''] ''out'' 2 Map.empty) \<noteq> Inl RequestException"
    and 5: "snd (crawl ?E page_url [''jpg''] ''out'' 2 Map.empty) \<noteq> Inl (SystemExit 5)"
    by blast+
  from c d 1 m 2 p x t 3 4 5 show ?thesis
    by (intro conjI) blast+
qed

subsection \<open>C7: the bandwidth\<close>

text \<open>
  Claim C7 says that the bandwidth is the megabytes divided by the elapsed seconds and
  that the computation is defined when no time has elapsed. Whenever \<^verbatim>\<open>crawl\<close>
  reports, the bandwidth is that quotient (\<open>crawl_bandwidth\<close>). The division has no
  guard: when the two readings of the clock are equal, \<^verbatim>\<open>Mbytes_downloaded/time_total\<close>
  raises \<^verbatim>\<open>ZeroDivisionError\<close>, after all downloads were made and before anything
  is printed (\<open>crawl_zero_elapsed_never_reports\<close>). Here it is on the site of three PDF
  files with both readings at 10, for a crawl with no link and for one with three.
\<close>

theorem crawl_zero_elapsed_raises:
  "time_end (pdf_site [] 10 10 first_come) - time_start (pdf_site [] 10 10 first_come) = 0 \<and>
   fst (crawl (pdf_site [] 10 10 first_come) page_url [''jpg''] ''out'' 2 Map.empty) = [] \<and>
   raised (snd (crawl (pdf_site [] 10 10 first_come) page_url [''jpg''] ''out'' 2 Map.empty))
     = Some ZeroDivisionError \<and>
   raised (snd (crawl (pdf_site [] 10 10 first_come) page_url [''pdf''] ''out'' 2 Map.empty))
     = Some ZeroDivisionError"
  by code_simp

subsection \<open>C8: resolving a link against the page\<close>

text \<open>
  Claim C8 says that \<^verbatim>\<open>resolve_url(B, R)\<close> has the scheme and the authority of
  \<open>B\<close> when \<open>R\<close> is relative, and is \<open>R\<close> unchanged when \<open>R\<close> is absolute.
  \<^verbatim>\<open>resolve_url\<close> is \<^verbatim>\<open>urljoin\<close>, which resolves references as RFC 3986 has
  it. A reference that starts with two slashes has no scheme, so it is relative, and
  names its own authority, which the result keeps: against a page of \<^verbatim>\<open>h.example\<close>,
  \<^verbatim>\<open>//b.example/x.jpg\<close> resolves to a URL of \<^verbatim>\<open>b.example\<close>. And an absolute
  reference with the scheme of the page is parsed and put together again, which lowers
  its scheme: \<^verbatim>\<open>HTTP://b.example/x.jpg\<close> does not come back unchanged.
\<close>

theorem resolve_url_counterexample:
  "urlparse down_site ''//b.example/x.jpg'' [] = Inr ([], ''b.example'', ''/x.jpg'', [], [], []) \<and>
   resolve_url down_site ''http://h.example/p/'' ''//b.example/x.jpg'' = Inr ''http://b.example/x.jpg'' \<and>
   origin down_site ''http://h.example/p/'' = Inr (''http'', ''h.example'') \<and>
   origin down_site ''http://b.example/x.jpg'' = Inr (''http'', ''b.example'') \<and>
   urlparse down_site ''HTTP://b.example/x.jpg'' [] = Inr (''http'', ''b.example'', ''/x.jpg'', [], [], []) \<and>
   resolve_url down_site ''http://h.example/p/'' ''HTTP://b.example/x.jpg'' = Inr ''http://b.example/x.jpg'' \<and>
   ''http://b.example/x.jpg'' \<noteq> ''HTTP://b.example/x.jpg''"
  by code_simp

text \<open>
  Claim C8, amended. Let \<open>B\<close> be a URL whose scheme allows relative references and an
  authority (\<^verbatim>\<open>http\<close>, \<^verbatim>\<open>https\<close>, \<^verbatim>\<open>ftp\<close>, \<^verbatim>\<open>file\<close>, ...) and \<open>R\<close> a
  candidate that is not empty and parses; \<open>scheme\<close> is the scheme of \<open>R\<close>, which is
  the scheme of \<open>B\<close> when \<open>R\<close> has none. When \<open>R\<close> has a scheme other than that of
  \<open>B\<close>, the result is \<open>R\<close> unchanged. Otherwise the result is an absolute URL with
  the scheme of \<open>B\<close>, and its authority is that of \<open>B\<close> when \<open>R\<close> names none and
  that of \<open>R\<close> when it names one.
\<close>

theorem resolve_url_origin:
  assumes "base \<noteq> []" and "url \<noteq> []"
    and "urlparse E base [] = Inr (bscheme, bnetloc, bpath, bparams, bquery, bfragment)"
    and "urlparse E url bscheme = Inr (scheme, netloc, path, params, query, fragment)"
    and "bscheme \<noteq> []" and "bscheme \<in> set uses_relative" and "bscheme \<in> set uses_netloc"
  shows "(scheme \<noteq> bscheme \<longrightarrow> resolve_url E base url = Inr url) \<and>
         (scheme = bscheme \<longrightarrow>
            (\<exists>u. resolve_url E base url = Inr u \<and>
                 origin E u = Inr (bscheme, if netloc = [] then bnetloc else netloc)))"
proof (intro conjI impI)
  assume "scheme \<noteq> bscheme"
  with assms(1-4) show "resolve_url E base url = Inr url"
    by (simp add: resolve_url_def urljoin_def)
next
  assume same: "scheme = bscheme"
  have nb: "netloc_ok E bnetloc"
    using assms(3) by (rule urlparse_netloc_ok)
  have nu: "netloc_ok E netloc"
    using assms(4) by (rule urlparse_netloc_ok)
  show "\<exists>u. resolve_url E base url = Inr u \<and>
            origin E u = Inr (bscheme, if netloc = [] then bnetloc else netloc)"
  proof (cases "netloc = []")
    case False
    with same assms have r: "resolve_url E base url =
        Inr (urlunparse (bscheme, netloc, path, params, query, fragment))"
      by (simp add: resolve_url_def urljoin_def)
    obtain rest where "urlunparse (bscheme, netloc, path, params, query, fragment)
          = bscheme @ ''://'' @ netloc @ rest" and "rest = [] \<or> hd rest \<in> set ''/?#''"
      using urlunparse_shape [OF assms(5,7)] by blast
    then have "origin E (urlunparse (bscheme, netloc, path, params, query, fragment))
        = Inr (bscheme, netloc)"
      using origin_assembled [OF assms(5,7) nu] by simp
    with r False show ?thesis by simp
  next
    case True
    with same assms have j: "resolve_url E base url =
        (if path = [] \<and> params = []
         then Inr (urlunparse (bscheme, bnetloc, bpath, bparams,
                     (if query = [] then bquery else query), fragment))
         else Inr (urlunparse (bscheme, bnetloc, merge_paths bpath path, params, query, fragment)))"
      by (simp add: resolve_url_def urljoin_def Let_def)
    have "\<exists>p' par' q'. resolve_url E base url =
        Inr (urlunparse (bscheme, bnetloc, p', par', q', fragment))"
    proof (cases "path = [] \<and> params = []")
      case True
      with j have "resolve_url E base url =
          Inr (urlunparse (bscheme, bnetloc, bpath, bparams,
                 (if query = [] then bquery else query), fragment))"
        by simp
      then show ?thesis by blast
    next
      case False
      with j have "resolve_url E base url =
          Inr (urlunparse (bscheme, bnetloc, merge_paths bpath path, params, query, fragment))"
        by simp
      then show ?thesis by blast
    qed
    then obtain p' par' q' where r: "resolve_url E base url =
        Inr (urlunparse (bscheme, bnetloc, p', par', q', fragment))"
      by blast
    obtain rest where "urlunparse (bscheme, bnetloc, p', par', q', fragment)
          = bscheme @ ''://'' @ bnetloc @ rest" and "rest = [] \<or> hd rest \<in> set ''/?#''"
      using urlunparse_shape [OF assms(5,7)] by blast
    then have "origin E (urlunparse (bscheme, bnetloc, p', par', q', fragment))
        = Inr (bscheme, bnetloc)"
      using origin_assembled [OF assms(5,7) nb] by simp
    with r True show ?thesis by simp
  qed
qed

theorem resolve_url_origin_witness:
  "page_url \<noteq> [] \<and> ''static/img/ostep.jpg'' \<noteq> [] \<and>
   urlparse down_site page_url [] = Inr (''http'', ''h.example'', ''/p/'', [], [], []) \<and>
   urlparse down_site ''static/img/ostep.jpg'' ''http'' = Inr (''http'', [], ''static/img/ostep.jpg'', [], [], []) \<and>
   ''http'' \<noteq> [] \<and> ''http'' \<in> set uses_relative \<and> ''http'' \<in> set uses_netloc \<and>
   resolve_url down_site page_url ''static/img/ostep.jpg'' = Inr ''http://h.example/p/static/img/ostep.jpg'' \<and>
   origin down_site ''http://h.example/p/static/img/ostep.jpg'' = Inr (''http'', ''h.example'') \<and>
   ''https://automatetheboringstuff.com/'' \<noteq> [] \<and>
   urlparse down_site ''https://automatetheboringstuff.com/'' ''http'' =
     Inr (''https'', ''automatetheboringstuff.com'', ''/'', [], [], []) \<and>
   ''https'' \<noteq> ''http'' \<and>
   resolve_url down_site page_url ''https://automatetheboringstuff.com/'' = Inr ''https://automatetheboringstuff.com/''"
proof -
  have b: "page_url \<noteq> []" by code_simp
  have u: "''static/img/ostep.jpg'' \<noteq> []" by simp
  have pb: "urlparse down_site page_url [] = Inr (''http'', ''h.example'', ''/p/'', [], [], [])"
    by code_simp
  have pu: "urlparse down_site ''static/img/ostep.jpg'' ''http''
      = Inr (''http'', [], ''static/img/ostep.jpg'', [], [], [])"
    by code_simp
  have s1: "''http'' \<noteq> []" by simp
  have s2: "''http'' \<in> set uses_relative" by code_simp
  have s3: "''http'' \<in> set uses_netloc" by code_simp
  have r: "resolve_url down_site page_url ''static/img/ostep.jpg'' = Inr ''http://h.example/p/static/img/ostep.jpg''"
    by code_simp
  have u2: "''https://automatetheboringstuff.com/'' \<noteq> []" by simp
  have pu2: "urlparse down_site ''https://automatetheboringstuff.com/'' ''http'' =
     Inr (''https'', ''automatetheboringstuff.com'', ''/'', [], [], [])"
    by code_simp
  have ne: "''https'' \<noteq> ''http''" by simp
  from resolve_url_origin [OF b u pb pu s1 s2 s3] r
  have o: "origin down_site ''http://h.example/p/static/img/ostep.jpg'' = Inr (''http'', ''h.example'')"
    by simp
  from resolve_url_origin [OF b u2 pb pu2 s1 s2 s3] ne
  have r2: "resolve_url down_site page_url ''https://automatetheboringstuff.com/'' = Inr ''https://automatetheboringstuff.com/''"
    by blast
  from b u pb pu s1 s2 s3 r o u2 pu2 ne r2 show ?thesis
    by (intro conjI)
qed

subsection \<open>C9: a second download overwrites\<close>

text \<open>
  Claim C9. Downloading the same URL twice into the same destination overwrites the file
  written first: both downloads return the same path, afterwards the file at that path
  holds the bytes of the second response, no other path has appeared and no other file
  has changed.
\<close>

theorem download_url_overwrites:
  assumes "download_url E1 url destination fs = (Inr (Some p1), fs1)"
    and "requests_get E2 url = Response status text content"
    and "download_url E2 url destination fs1 = (Inr (Some p2), fs2)"
  shows "p2 = p1 \<and> fs2 p1 = Some content \<and> dom fs2 = dom fs1 \<and> (\<forall>q. q \<noteq> p1 \<longrightarrow> fs2 q = fs1 q)"
  using assms
  by (auto simp: download_url_def Let_def split: fetched.splits if_splits)

theorem download_url_overwrites_witness:
  "download_url (pdf_site [] 10 12 first_come) ''http://h.example/p/one.pdf'' ''out'' Map.empty =
     (Inr (Some ''out/one.pdf''), [''out/one.pdf'' \<mapsto> ''ONE'']) \<and>
   requests_get mirror_site ''http://h.example/p/one.pdf'' = Response 200 [] ''UNO'' \<and>
   download_url mirror_site ''http://h.example/p/one.pdf'' ''out'' [''out/one.pdf'' \<mapsto> ''ONE''] =
     (Inr (Some ''out/one.pdf''), [''out/one.pdf'' \<mapsto> ''UNO'']) \<and>
   [''out/one.pdf'' \<mapsto> ''UNO''] ''out/one.pdf'' = Some ''UNO'' \<and>
   dom [''out/one.pdf'' \<mapsto> ''UNO''] = dom [''out/one.pdf'' \<mapsto> ''ONE'']"
proof -
  have h1: "download_url (pdf_site [] 10 12 first_come) ''http://h.example/p/one.pdf'' ''out'' Map.empty =
     (Inr (Some ''out/one.pdf''), [''out/one.pdf'' \<mapsto> ''ONE''])"
    by (simp add: download_url_def pdf_site_def table_env_def page_url_def ok_def basename_def
        path_join_def before_def Let_def)
  have h2: "requests_get mirror_site ''http://h.example/p/one.pdf'' = Response 200 [] ''UNO''"
    by (simp add: mirror_site_def table_env_def)
  have h3: "download_url mirror_site ''http://h.example/p/one.pdf'' ''out'' [''out/one.pdf'' \<mapsto> ''ONE''] =
     (Inr (Some ''out/one.pdf''), [''out/one.pdf'' \<mapsto> ''UNO''])"
    by (simp add: download_url_def mirror_site_def table_env_def ok_def basename_def
        path_join_def before_def Let_def)
  from download_url_overwrites [OF h1 h2 h3] h1 h2 h3 show ?thesis
    by blast
qed

subsection \<open>C10: a category outside the table\<close>

text \<open>
  Claim C10. For a category outside \<open>{jpg, mp3, pdf, png}\<close>, \<^verbatim>\<open>extract_urls\<close>
  raises a \<^verbatim>\<open>KeyError\<close> when it reaches that category: the links of the categories
  before it have been yielded, nothing of the later categories is, and the run ends by
  raising, not with an empty match set.
\<close>

theorem extract_urls_unknown_category:
  assumes "requests_get E url = Response status text content" and "ok status"
    and "filetype \<notin> {''jpg'', ''mp3'', ''pdf'', ''png''}"
    and "scan_file_types E url text earlier = (ys, None)"
  shows "extract_urls E url (earlier @ filetype # later) = (ys, Some (KeyError filetype))"
proof -
  from assms(3) have "FILE_REGEX filetype = None"
    by (simp only: FILE_REGEX_None not_False_eq_True)
  with assms(1,2,4) show ?thesis
    by (simp add: extract_urls_def scan_file_types_append)
qed

theorem extract_urls_unknown_category_witness:
  "requests_get (gallery_site [] 0 1 first_come) page_url = Response 200 gallery_page gallery_page \<and>
   ok 200 \<and>
   ''gif'' \<notin> {''jpg'', ''mp3'', ''pdf'', ''png''} \<and>
   scan_file_types (gallery_site [] 0 1 first_come) page_url gallery_page [''jpg'']
     = ([''http://h.example/p/x.jpg'', ''http://h.example/p/x.jpg''], None) \<and>
   extract_urls (gallery_site [] 0 1 first_come) page_url ([''jpg''] @ ''gif'' # [''pdf''])
     = ([''http://h.example/p/x.jpg'', ''http://h.example/p/x.jpg''], Some (KeyError ''gif''))"
proof -
  let ?E = "gallery_site [] 0 1 first_come"
  have h1: "requests_get ?E page_url = Response 200 gallery_page gallery_page"
    by code_simp
  have h2: "ok 200"
    by code_simp
  have h3: "''gif'' \<notin> {''jpg'', ''mp3'', ''pdf'', ''png''}"
    by simp
  have h4: "scan_file_types ?E page_url gallery_page [''jpg'']
     = ([''http://h.example/p/x.jpg'', ''http://h.example/p/x.jpg''], None)"
    by code_simp
  show ?thesis
    by (intro conjI h1 h2 h3 h4 extract_urls_unknown_category [OF h1 h2 h3 h4])
qed

end
